theory Spec2Isabelle
  imports Main "HOL-Library.Word"
begin

unbundle bit_operations_syntax

section \<open>Shared types\<close>

text \<open>
  Bytes are 8-bit words, Go's \<open>uint32\<close> is a 32-bit word, and a Go \<open>[]byte\<close> (or a Go
  \<open>string\<close> in the byte codec, which is a byte sequence without validation) is a list of
  bytes. Go's \<open>error\<close> results are values of the datatype \<open>error\<close>; \<open>nil\<close> is \<open>None\<close>.
\<close>

type_synonym byte = "8 word"
type_synonym u16 = "16 word"
type_synonym u32 = "32 word"
type_synonym u64 = "64 word"

datatype error =
    EOF
  | ErrUnexpectedEOF
  | ErrVarIntTooLong
  | ErrStringTooLong
  | ErrInvalidUTF8
  | ErrPacketTooLarge
  | ErrInvalidHeader
  | ErrConnectTooShort
  | ErrInvalidPacketID

section \<open>Byte codec (package protohytale)\<close>

subsection \<open>VarInt\<close>

text \<open>
  \<open>ReadVarInt\<close>: the \<open>for i := 0; i < 5; i++\<close> loop with its two local variables
  \<open>result\<close> and \<open>shift\<close>. The result is Go's triple \<open>(value, bytesRead, err)\<close>.
  The shift \<open>uint32(b&0x7F) << shift\<close> discards the bits that leave the 32-bit word,
  as \<open>push_bit\<close> on \<open>32 word\<close> does.
\<close>

function ReadVarInt_loop :: "byte list \<Rightarrow> nat \<Rightarrow> u32 \<Rightarrow> nat \<Rightarrow> u32 \<times> nat \<times> error option" where
  "ReadVarInt_loop data i result shift =
     (if i < 5 then
        (if i \<ge> length data then (0, 0, Some ErrUnexpectedEOF)
         else
           let b = data ! i;
               result' = result OR push_bit shift (ucast (b AND 0x7F))
           in if b AND 0x80 = 0 then (result', i + 1, None)
              else ReadVarInt_loop data (i + 1) result' (shift + 7))
      else (0, 0, Some ErrVarIntTooLong))"
  by pat_completeness auto
termination
  by (relation "measure (\<lambda>(data, i, result, shift). 5 - i)") auto

definition ReadVarInt :: "byte list \<Rightarrow> u32 \<times> nat \<times> error option" where
  "ReadVarInt data = ReadVarInt_loop data 0 0 0"

text \<open>
  \<open>WriteVarInt\<close>: the \<open>for { ... }\<close> loop over the local array \<open>buf [5]byte\<close> and the
  counter \<open>n\<close>. The store \<open>buf[n] = b\<close> panics in Go when \<open>n\<close> is out of range; that
  outcome is \<open>None\<close>. The loop ends because \<open>value >>= 7\<close> makes a non-zero value smaller.
\<close>

lemma drop7_less: "drop_bit 7 (v::u32) \<noteq> 0 \<Longrightarrow> unat (drop_bit 7 v) < unat v"
proof -
  assume a: "drop_bit 7 v \<noteq> 0"
  have e: "unat (drop_bit 7 v) = unat v div 128"
    by (simp add: drop_bit_eq_div unat_div)
  from a have "unat (drop_bit 7 v) \<noteq> 0" by (simp add: unat_eq_0)
  with e have "unat v div 128 \<noteq> 0" by simp
  then have "0 < unat v" by (cases "unat v = 0") auto
  then have "unat v div 128 < unat v" by simp
  with e show ?thesis by simp
qed

function WriteVarInt_loop :: "u32 \<Rightarrow> byte list \<Rightarrow> nat \<Rightarrow> (byte list \<times> nat) option" where
  "WriteVarInt_loop v buf n =
     (let b = (ucast (v AND 0x7F) :: byte);
          v' = drop_bit 7 v;
          b' = (if v' \<noteq> 0 then b OR 0x80 else b)
      in if n \<ge> length buf then None
         else
           let buf' = buf[n := b']; n' = n + 1
           in if v' = 0 then Some (buf', n') else WriteVarInt_loop v' buf' n')"
  by pat_completeness auto
termination
  by (relation "measure (\<lambda>(v, buf, n). unat v)") (auto simp: drop7_less)

definition WriteVarInt :: "u32 \<Rightarrow> byte list option" where
  "WriteVarInt v = (case WriteVarInt_loop v (replicate 5 0) 0 of None \<Rightarrow> None | Some (buf, n) \<Rightarrow> Some (take n buf))"

text \<open>\<open>VarIntSize\<close>: the \<open>switch\<close> over the ranges \<open>1<<7\<close>, \<open>1<<14\<close>, \<open>1<<21\<close>, \<open>1<<28\<close>.\<close>

definition VarIntSize :: "u32 \<Rightarrow> nat" where
  "VarIntSize v =
     (if v < push_bit 7 1 then 1
      else if v < push_bit 14 1 then 2
      else if v < push_bit 21 1 then 3
      else if v < push_bit 28 1 then 4
      else 5)"

subsection \<open>Strings\<close>

definition MaxStringLength :: u32 where
  "MaxStringLength = 256"

text \<open>
  \<open>ReadString\<close>: a VarInt length, then that many bytes. The slice \<open>data[n:end]\<close> is taken
  only after the check \<open>end > len(data)\<close>, so it is in range.
\<close>

definition ReadString :: "byte list \<Rightarrow> byte list \<times> nat \<times> error option" where
  "ReadString data =
     (case ReadVarInt data of
        (len, n, Some err) \<Rightarrow> ([], 0, Some err)
      | (len, n, None) \<Rightarrow>
          if len > MaxStringLength then ([], 0, Some ErrStringTooLong)
          else
            let end = n + unat len
            in if end > length data then ([], 0, Some ErrUnexpectedEOF)
               else (take (end - n) (drop n data), end, None))"

text \<open>
  \<open>WriteString\<close>: \<open>uint32(len(s))\<close> truncates the length to 32 bits; the result is the
  length prefix followed by the bytes of \<open>s\<close>. It panics only if \<open>WriteVarInt\<close> does.
\<close>

definition WriteString :: "byte list \<Rightarrow> byte list option" where
  "WriteString s =
     (case WriteVarInt (word_of_nat (length s)) of
        None \<Rightarrow> None
      | Some lenBytes \<Rightarrow> Some (lenBytes @ s))"

subsection \<open>Fixed-width readers\<close>

text \<open>
  Go's \<open>binary.LittleEndian.Uint16/Uint32/Uint64\<close> (standard library): the first 2, 4 or 8
  bytes, least significant first. Every caller checks the length first.
\<close>

definition LittleEndian_Uint16 :: "byte list \<Rightarrow> u16" where
  "LittleEndian_Uint16 b = ucast (b ! 0) OR push_bit 8 (ucast (b ! 1))"

definition LittleEndian_Uint32 :: "byte list \<Rightarrow> u32" where
  "LittleEndian_Uint32 b =
     ucast (b ! 0) OR push_bit 8 (ucast (b ! 1)) OR push_bit 16 (ucast (b ! 2))
       OR push_bit 24 (ucast (b ! 3))"

definition LittleEndian_Uint64 :: "byte list \<Rightarrow> u64" where
  "LittleEndian_Uint64 b =
     ucast (b ! 0) OR push_bit 8 (ucast (b ! 1)) OR push_bit 16 (ucast (b ! 2))
       OR push_bit 24 (ucast (b ! 3)) OR push_bit 32 (ucast (b ! 4))
       OR push_bit 40 (ucast (b ! 5)) OR push_bit 48 (ucast (b ! 6))
       OR push_bit 56 (ucast (b ! 7))"

text \<open>\<open>ReadUUID\<close>: on error the zero array \<open>[16]byte\<close> is returned.\<close>

definition ReadUUID :: "byte list \<Rightarrow> byte list \<times> nat \<times> error option" where
  "ReadUUID data =
     (if length data < 16 then (replicate 16 0, 0, Some ErrUnexpectedEOF)
      else (take 16 data, 16, None))"

definition ReadUint8 :: "byte list \<Rightarrow> byte \<times> nat \<times> error option" where
  "ReadUint8 data =
     (if length data < 1 then (0, 0, Some ErrUnexpectedEOF)
      else (data ! 0, 1, None))"

definition ReadUint16LE :: "byte list \<Rightarrow> u16 \<times> nat \<times> error option" where
  "ReadUint16LE data =
     (if length data < 2 then (0, 0, Some ErrUnexpectedEOF)
      else (LittleEndian_Uint16 data, 2, None))"

definition ReadUint32LE :: "byte list \<Rightarrow> u32 \<times> nat \<times> error option" where
  "ReadUint32LE data =
     (if length data < 4 then (0, 0, Some ErrUnexpectedEOF)
      else (LittleEndian_Uint32 data, 4, None))"

definition ReadUint64LE :: "byte list \<Rightarrow> u64 \<times> nat \<times> error option" where
  "ReadUint64LE data =
     (if length data < 8 then (0, 0, Some ErrUnexpectedEOF)
      else (LittleEndian_Uint64 data, 8, None))"

text \<open>\<open>ReadInt32LE\<close>: the conversion \<open>int32(...)\<close> reads the word as two's complement.\<close>

definition ReadInt32LE :: "byte list \<Rightarrow> int \<times> nat \<times> error option" where
  "ReadInt32LE data =
     (if length data < 4 then (0, 0, Some ErrUnexpectedEOF)
      else (sint (LittleEndian_Uint32 data), 4, None))"

text \<open>
  A \<open>float32\<close> is represented by its IEEE 754 bit pattern: \<open>math.Float32frombits\<close> is
  the identity on this representation.
\<close>

definition ReadFloat32LE :: "byte list \<Rightarrow> u32 \<times> nat \<times> error option" where
  "ReadFloat32LE data =
     (if length data < 4 then (0, 0, Some ErrUnexpectedEOF)
      else (let bits = LittleEndian_Uint32 data in (bits, 4, None)))"

text \<open>
  \<open>float16ToFloat32\<close>: the subnormal branch normalises the mantissa with the loop
  \<open>for mant&0x400 == 0 { mant <<= 1; exp-- }\<close>, which does not end for a mantissa
  without a bit at or below position 10; not returning is \<open>None\<close>.
\<close>

partial_function (option) float16_normalize :: "u32 \<Rightarrow> u32 \<Rightarrow> (u32 \<times> u32) option" where
  "float16_normalize mant exp =
     (if mant AND 0x400 = 0 then float16_normalize (push_bit 1 mant) (exp - 1)
      else Some (mant, exp))"

declare float16_normalize.simps [code]

definition float16ToFloat32 :: "u16 \<Rightarrow> u32 option" where
  "float16ToFloat32 h =
     (let sign = (ucast (drop_bit 15 h) :: u32) AND 1;
          exp = (ucast (drop_bit 10 h) :: u32) AND 0x1F;
          mant = (ucast h :: u32) AND 0x3FF
      in if exp = 0 then
           (if mant = 0 then Some (push_bit 31 sign)
            else
              (case float16_normalize mant (127 - 14) of
                 None \<Rightarrow> None
               | Some (mant', exp') \<Rightarrow>
                   let mant'' = mant' AND 0x3FF
                   in Some (push_bit 31 sign OR push_bit 23 exp' OR push_bit 13 mant'')))
         else if exp = 31 then
           Some (push_bit 31 sign OR push_bit 23 0xFF OR push_bit 13 mant)
         else
           Some (push_bit 31 sign OR push_bit 23 (exp + 127 - 15) OR push_bit 13 mant))"

definition ReadFloat16 :: "byte list \<Rightarrow> (u32 \<times> nat \<times> error option) option" where
  "ReadFloat16 data =
     (if length data < 2 then Some (0, 0, Some ErrUnexpectedEOF)
      else
        let bits = LittleEndian_Uint16 data
        in (case float16ToFloat32 bits of
              None \<Rightarrow> None
            | Some f \<Rightarrow> Some (f, 2, None)))"

text \<open>
  \<open>ReadBytes\<close>: \<open>n\<close> is a Go \<open>int\<close>. For a negative \<open>n\<close> the check \<open>len(data) < n\<close>
  passes and \<open>make([]byte, n)\<close> panics; that outcome is \<open>None\<close>.
\<close>

definition ReadBytes :: "byte list \<Rightarrow> int \<Rightarrow> (byte list \<times> int \<times> error option) option" where
  "ReadBytes data n =
     (if int (length data) < n then Some ([], 0, Some ErrUnexpectedEOF)
      else if n < 0 then None
      else Some (take (nat n) data, n, None))"

text \<open>\<open>ReadHostAddress\<close>: a string, then a little-endian port.\<close>

definition ReadHostAddress :: "byte list \<Rightarrow> byte list \<times> u16 \<times> nat \<times> error option" where
  "ReadHostAddress data =
     (case ReadString data of
        (host, n, Some err) \<Rightarrow> ([], 0, 0, Some err)
      | (host, n, None) \<Rightarrow>
          if length data < n + 2 then ([], 0, 0, Some ErrUnexpectedEOF)
          else
            let port = LittleEndian_Uint16 (drop n data)
            in (host, port, n + 2, None))"

section \<open>Framed packets (package protohytale)\<close>

record Packet =
  ID :: u32
  Data :: "byte list"

definition HeaderSize :: nat where
  "HeaderSize = 8"

definition MaxPacketSize :: nat where
  "MaxPacketSize = 16 * 1024 * 1024"

definition DefaultBufSize :: nat where
  "DefaultBufSize = 64 * 1024"

text \<open>
  Go's \<open>binary.LittleEndian.PutUint32\<close> (standard library): the four bytes of a word,
  least significant first.
\<close>

definition LittleEndian_PutUint32 :: "u32 \<Rightarrow> byte list" where
  "LittleEndian_PutUint32 v =
     [ucast v, ucast (drop_bit 8 v), ucast (drop_bit 16 v), ucast (drop_bit 24 v)]"

subsection \<open>The writer\<close>

text \<open>
  The underlying \<open>io.Writer\<close> is an interface: a function \<open>wr\<close> from the writer's state
  and the bytes of one \<open>Write\<close> call to an error and the new state. \<open>PacketWriter.Write\<close>
  fills the 8-byte header, writes it, and writes the body when it is not empty;
  \<open>uint32(len(data))\<close> truncates the length to 32 bits.
\<close>

definition PacketWriter_Write ::
  "('w \<Rightarrow> byte list \<Rightarrow> error option \<times> 'w) \<Rightarrow> 'w \<Rightarrow> u32 \<Rightarrow> byte list \<Rightarrow> error option \<times> 'w" where
  "PacketWriter_Write wr w id' data =
     (let hdr = LittleEndian_PutUint32 (word_of_nat (length data)) @ LittleEndian_PutUint32 id'
      in case wr w hdr of
           (Some err, w1) \<Rightarrow> (Some err, w1)
         | (None, w1) \<Rightarrow>
             if length data > 0 then
               (case wr w1 data of
                  (Some err, w2) \<Rightarrow> (Some err, w2)
                | (None, w2) \<Rightarrow> (None, w2))
             else (None, w1))"

text \<open>
  A byte stream that keeps the pieces it was written in: every \<open>Write\<close> call appends one
  piece and succeeds.
\<close>

definition stream_Write :: "byte list list \<Rightarrow> byte list \<Rightarrow> error option \<times> byte list list" where
  "stream_Write w p = (None, w @ [p])"

subsection \<open>The reader\<close>

text \<open>
  The underlying \<open>io.Reader\<close> is an interface as well: a function \<open>rd\<close> from the reader's
  state and the capacity \<open>len(p)\<close> of the destination to the bytes read (at most the
  capacity, by the interface's contract), an error and the new state.
\<close>

record 'r PacketReader =
  reader :: 'r
  buf :: "byte list"
  buffered :: nat
  offset :: nat

definition NewPacketReader :: "'r \<Rightarrow> 'r PacketReader" where
  "NewPacketReader r0 = \<lparr>reader = r0, buf = replicate DefaultBufSize 0, buffered = 0, offset = 0\<rparr>"

definition NewPacketReaderSize :: "'r \<Rightarrow> nat \<Rightarrow> 'r PacketReader" where
  "NewPacketReaderSize r0 size' =
     (let size'' = (if size' < HeaderSize then DefaultBufSize else size')
      in \<lparr>reader = r0, buf = replicate size'' 0, buffered = 0, offset = 0\<rparr>)"

text \<open>
  The loop \<open>for pr.buffered < n\<close> of \<open>ensureBytes\<close>. One \<open>Read\<close> stores its bytes at
  \<open>pr.buf[pr.buffered:]\<close>. A reader that keeps returning no bytes and no error keeps the
  loop running; not returning is \<open>None\<close>.
\<close>

partial_function (option) ensureBytes_loop ::
  "('r \<Rightarrow> nat \<Rightarrow> (byte list \<times> error option) \<times> 'r) \<Rightarrow> nat \<Rightarrow> 'r PacketReader
     \<Rightarrow> (error option \<times> 'r PacketReader) option" where
  "ensureBytes_loop rd n pr =
     (if buffered pr < n then
        (case rd (reader pr) (length (buf pr) - buffered pr) of
           ((chunk, err), r') \<Rightarrow>
             let nr = length chunk;
                 pr' = pr\<lparr>reader := r',
                          buf := take (buffered pr) (buf pr) @ chunk @ drop (buffered pr + nr) (buf pr),
                          buffered := buffered pr + nr\<rparr>
             in (case err of
                   Some e \<Rightarrow>
                     if e = EOF \<and> buffered pr' > 0 \<and> buffered pr' < n
                     then Some (Some ErrUnexpectedEOF, pr')
                     else Some (Some e, pr')
                 | None \<Rightarrow> ensureBytes_loop rd n pr'))
      else Some (None, pr))"

declare ensureBytes_loop.simps [code]

text \<open>
  \<open>ensureBytes\<close>: return at once when enough bytes are buffered; otherwise move the
  unread bytes to the start (\<open>copy\<close> allows the overlap), grow the buffer to
  \<open>max(2 * len(buf), n)\<close> when \<open>n\<close> does not fit, and read.
\<close>

definition ensureBytes ::
  "('r \<Rightarrow> nat \<Rightarrow> (byte list \<times> error option) \<times> 'r) \<Rightarrow> nat \<Rightarrow> 'r PacketReader
     \<Rightarrow> (error option \<times> 'r PacketReader) option" where
  "ensureBytes rd n pr =
     (let available = buffered pr - offset pr
      in if available \<ge> n then Some (None, pr)
         else
           let pr1 = (if offset pr > 0
                      then pr\<lparr>buf := take available (drop (offset pr) (buf pr)) @ drop available (buf pr),
                              buffered := available, offset := 0\<rparr>
                      else pr);
               pr2 = (if n > length (buf pr1)
                      then
                        let newSize = length (buf pr1) * 2;
                            newSize' = (if newSize < n then n else newSize)
                        in pr1\<lparr>buf := take (buffered pr1) (buf pr1) @ replicate (newSize' - buffered pr1) 0\<rparr>
                      else pr1)
           in ensureBytes_loop rd n pr2)"

text \<open>
  \<open>ReadPacket\<close>: the result is Go's pair \<open>(*Packet, error)\<close> and the reader after the
  call. The header is read at \<open>pr.buf[pr.offset:]\<close>, where \<open>ensureBytes\<close> has made eight
  bytes available.
\<close>

definition ReadPacket ::
  "('r \<Rightarrow> nat \<Rightarrow> (byte list \<times> error option) \<times> 'r) \<Rightarrow> 'r PacketReader
     \<Rightarrow> ((Packet option \<times> error option) \<times> 'r PacketReader) option" where
  "ReadPacket rd pr =
     (case ensureBytes rd HeaderSize pr of
        None \<Rightarrow> None
      | Some (Some err, pr1) \<Rightarrow> Some ((None, Some err), pr1)
      | Some (None, pr1) \<Rightarrow>
          let length' = LittleEndian_Uint32 (drop (offset pr1) (buf pr1));
              packetID = LittleEndian_Uint32 (drop (offset pr1 + 4) (buf pr1))
          in if unat length' > MaxPacketSize then Some ((None, Some ErrPacketTooLarge), pr1)
             else
               let totalSize = HeaderSize + unat length'
               in (case ensureBytes rd totalSize pr1 of
                     None \<Rightarrow> None
                   | Some (Some err, pr2) \<Rightarrow> Some ((None, Some err), pr2)
                   | Some (None, pr2) \<Rightarrow>
                       let data = take (unat length') (drop (offset pr2 + HeaderSize) (buf pr2));
                           pr3 = pr2\<lparr>offset := offset pr2 + totalSize\<rparr>
                       in Some ((Some \<lparr>ID = packetID, Data = data\<rparr>, None), pr3)))"

definition Buffered :: "'r PacketReader \<Rightarrow> nat" where
  "Buffered pr = buffered pr - offset pr"

text \<open>
  A byte stream that arrives in pieces: a \<open>Read\<close> delivers the next piece, or as much of
  it as the destination holds, and \<open>io.EOF\<close> when no piece is left.
\<close>

fun stream_Read :: "byte list list \<Rightarrow> nat \<Rightarrow> (byte list \<times> error option) \<times> byte list list" where
  "stream_Read [] cap = (([], Some EOF), [])"
| "stream_Read (c # cs) cap =
     (if length c \<le> cap then ((c, None), cs)
      else ((take cap c, None), drop cap c # cs))"

text \<open>
  A byte stream that reports its end together with its last bytes, which the contract of
  \<open>io.Reader\<close> allows (a \<open>Read\<close> may return \<open>n > 0\<close> bytes and \<open>io.EOF\<close> at once): the
  \<open>Read\<close> that delivers the rest of the last piece returns \<open>io.EOF\<close> with it.
\<close>

fun stream_Read_eof :: "byte list list \<Rightarrow> nat \<Rightarrow> (byte list \<times> error option) \<times> byte list list" where
  "stream_Read_eof [] cap = (([], Some EOF), [])"
| "stream_Read_eof [c] cap =
     (if length c \<le> cap then ((c, Some EOF), [])
      else ((take cap c, None), [drop cap c]))"
| "stream_Read_eof (c # cs) cap =
     (if length c \<le> cap then ((c, None), cs)
      else ((take cap c, None), drop cap c # cs))"

subsection \<open>The Connect packet\<close>

definition ConnectPacketMinSize :: nat where
  "ConnectPacketMinSize = 82"

record ConnectPacket =
  ProtocolHash :: "byte list"
  ClientType :: byte
  UUID :: "byte list"
  Language :: "byte list"
  IdentityToken :: "byte list"
  Username :: "byte list"
  ReferralData :: "byte list"

text \<open>
  \<open>ParseConnect\<close>: the result is Go's pair \<open>(*ConnectPacket, error)\<close>. The fixed prefix
  (32 + 1 + 16 bytes) is read after the length check; each of the three strings that
  fails to decode ends the parse with what was read so far.
\<close>

definition ParseConnect :: "byte list \<Rightarrow> ConnectPacket option \<times> error option" where
  "ParseConnect data =
     (if length data < ConnectPacketMinSize then (None, Some ErrConnectTooShort)
      else
        let cp0 = \<lparr>ProtocolHash = take 32 data, ClientType = data ! 32,
                   UUID = take 16 (drop 33 data), Language = [], IdentityToken = [],
                   Username = [], ReferralData = []\<rparr>;
            offset0 = 49
        in if offset0 \<ge> length data then (Some cp0, None)
           else
             (case ReadString (drop offset0 data) of
                (lang, n, Some err) \<Rightarrow> (Some cp0, None)
              | (lang, n, None) \<Rightarrow>
                  let cp1 = cp0\<lparr>Language := lang\<rparr>; offset1 = offset0 + n
                  in if offset1 \<ge> length data then (Some cp1, None)
                     else
                       (case ReadString (drop offset1 data) of
                          (token, n, Some err) \<Rightarrow> (Some cp1, None)
                        | (token, n, None) \<Rightarrow>
                            let cp2 = cp1\<lparr>IdentityToken := token\<rparr>; offset2 = offset1 + n
                            in if offset2 \<ge> length data then (Some cp2, None)
                               else
                                 (case ReadString (drop offset2 data) of
                                    (username, n, Some err) \<Rightarrow> (Some cp2, None)
                                  | (username, n, None) \<Rightarrow>
                                      let cp3 = cp2\<lparr>Username := username\<rparr>;
                                          offset3 = offset2 + n
                                      in if offset3 < length data
                                         then (Some (cp3\<lparr>ReferralData := drop offset3 data\<rparr>), None)
                                         else (Some cp3, None)))))"

section \<open>Handlers (package handler)\<close>

subsection \<open>Extracting the DCID\<close>

text \<open>
  Go's \<open>hex.EncodeToString\<close> (standard library): two lower-case hexadecimal digits for
  every byte, the high nibble first.
\<close>

definition hextable :: string where
  "hextable = ''0123456789abcdef''"

definition hex_EncodeToString :: "byte list \<Rightarrow> string" where
  "hex_EncodeToString src =
     concat (map (\<lambda>v. [hextable ! unat (drop_bit 4 v), hextable ! unat (v AND 0x0F)]) src)"

text \<open>
  \<open>parseQUICDCID\<close>: the empty string for a packet of fewer than six bytes, for a short
  header, for a DCID length of zero and for a packet that ends before the DCID does;
  otherwise the hexadecimal text of \<open>packet[6 : 6+dcidLen]\<close>.
\<close>

definition parseQUICDCID :: "byte list \<Rightarrow> string" where
  "parseQUICDCID packet =
     (if length packet < 6 then []
      else if packet ! 0 AND 0x80 = 0 then []
      else
        let dcidLen = unat (packet ! 5)
        in if dcidLen = 0 \<or> length packet < 6 + dcidLen then []
           else hex_EncodeToString (take dcidLen (drop 6 packet)))"

subsection \<open>The DCID tracker\<close>

text \<open>
  The tracker's map \<open>byAddr\<close> from the text of a remote address to a DCID. One
  \<open>ReadFrom\<close> call receives from the wrapped connection the buffer \<open>p\<close> as the read left
  it, the count \<open>n\<close>, the sender's address (as \<open>addr.String()\<close>) and the error, and
  returns \<open>(n, addr, err)\<close> unchanged. The mutex makes each call one step.
\<close>

record dcidTracker =
  byAddr :: "string \<rightharpoonup> string"
  closed :: bool

definition newDCIDTracker :: dcidTracker where
  "newDCIDTracker = \<lparr>byAddr = Map.empty, closed = False\<rparr>"

definition dcidTracker_ReadFrom ::
  "dcidTracker \<Rightarrow> byte list \<times> nat \<times> string \<times> error option
     \<Rightarrow> (nat \<times> string \<times> error option) \<times> dcidTracker" where
  "dcidTracker_ReadFrom t rcv =
     (case rcv of
        (p, n, addr, err) \<Rightarrow>
          if err = None \<and> n > 6 then
            (let dcid = parseQUICDCID (take n p)
             in if dcid \<noteq> [] then
                  (if byAddr t addr = None
                   then ((n, addr, err), t\<lparr>byAddr := (byAddr t)(addr \<mapsto> dcid)\<rparr>)
                   else ((n, addr, err), t))
                else ((n, addr, err), t))
          else ((n, addr, err), t))"

text \<open>\<open>GetDCID\<close>: a missing key reads as the empty string.\<close>

definition dcidTracker_GetDCID :: "dcidTracker \<Rightarrow> string \<Rightarrow> string" where
  "dcidTracker_GetDCID t addr = (case byAddr t addr of None \<Rightarrow> [] | Some dcid \<Rightarrow> dcid)"

definition dcidTracker_Delete :: "dcidTracker \<Rightarrow> string \<Rightarrow> dcidTracker" where
  "dcidTracker_Delete t addr = t\<lparr>byAddr := (byAddr t)(addr := None)\<rparr>"

text \<open>A sequence of \<open>ReadFrom\<close> calls, in order.\<close>

fun dcidTracker_ReadFrom_all ::
  "dcidTracker \<Rightarrow> (byte list \<times> nat \<times> string \<times> error option) list \<Rightarrow> dcidTracker" where
  "dcidTracker_ReadFrom_all t [] = t"
| "dcidTracker_ReadFrom_all t (rcv # rcvs) =
     dcidTracker_ReadFrom_all (snd (dcidTracker_ReadFrom t rcv)) rcvs"

subsection \<open>The handler chain\<close>

datatype Action = Continue | Handled | Drop

text \<open>A Go \<open>error\<close> made by \<open>errors.New\<close> is its message.\<close>

record Result =
  Action :: Action
  Error :: "string option"

datatype Direction = Inbound | Outbound

text \<open>
  The interface \<open>Handler\<close>: a handler's methods act on everything they can change (the
  context behind \<open>ctx\<close> and the handler's own fields), the state \<open>'w\<close>, and return
  their result with the new state.
\<close>

record 'w Handler =
  Name :: string
  OnConnect :: "'w \<Rightarrow> Result \<times> 'w"
  OnPacket :: "byte list \<Rightarrow> Direction \<Rightarrow> 'w \<Rightarrow> Result \<times> 'w"
  OnDisconnect :: "'w \<Rightarrow> 'w"

text \<open>
  \<open>Chain.OnConnect\<close> and \<open>Chain.OnPacket\<close>: the \<open>for _, h := range c.handlers\<close> loop
  returns the first result whose action is not \<open>Continue\<close>, and \<open>Result{Action: Drop}\<close>
  after the last handler.
\<close>

fun Chain_OnConnect :: "'w Handler list \<Rightarrow> 'w \<Rightarrow> Result \<times> 'w" where
  "Chain_OnConnect [] w = (\<lparr>Action = Drop, Error = None\<rparr>, w)"
| "Chain_OnConnect (h # hs) w =
     (case OnConnect h w of
        (result, w') \<Rightarrow>
          if Action result \<noteq> Continue then (result, w') else Chain_OnConnect hs w')"

fun Chain_OnPacket :: "'w Handler list \<Rightarrow> byte list \<Rightarrow> Direction \<Rightarrow> 'w \<Rightarrow> Result \<times> 'w" where
  "Chain_OnPacket [] packet dir w = (\<lparr>Action = Drop, Error = None\<rparr>, w)"
| "Chain_OnPacket (h # hs) packet dir w =
     (case OnPacket h packet dir w of
        (result, w') \<Rightarrow>
          if Action result \<noteq> Continue then (result, w') else Chain_OnPacket hs packet dir w')"

fun Chain_OnDisconnect :: "'w Handler list \<Rightarrow> 'w \<Rightarrow> 'w" where
  "Chain_OnDisconnect [] w = w"
| "Chain_OnDisconnect (h # hs) w = Chain_OnDisconnect hs (OnDisconnect h w)"

text \<open>
  Proof device (not in the source): the state after a list of handler methods has run
  in order, each returning \<open>Continue\<close>; \<open>None\<close> when one of them returns something else.
\<close>

fun all_Continue :: "('w \<Rightarrow> Result \<times> 'w) list \<Rightarrow> 'w \<Rightarrow> 'w option" where
  "all_Continue [] w = Some w"
| "all_Continue (f # fs) w =
     (case f w of (result, w') \<Rightarrow> if Action result = Continue then all_Continue fs w' else None)"

text \<open>
  The mock handler of the package's tests: it returns the configured action and records
  that it was called. The record of calls is the state, a list of the calls in order.
\<close>

definition mockHandler :: "string \<Rightarrow> Action \<Rightarrow> Action \<Rightarrow> (string list) Handler" where
  "mockHandler name connectAction packetAction =
     \<lparr>Name = name,
      OnConnect = (\<lambda>w. (\<lparr>Action = connectAction, Error = None\<rparr>, w @ [name @ ''.OnConnect''])),
      OnPacket = (\<lambda>packet dir w. (\<lparr>Action = packetAction, Error = None\<rparr>, w @ [name @ ''.OnPacket''])),
      OnDisconnect = (\<lambda>w. w @ [name @ ''.OnDisconnect''])\<rparr>"

subsection \<open>The context\<close>

text \<open>
  Modelled from the spec: the type \<open>Context\<close> and its methods \<open>Set\<close> and \<open>GetString\<close>
  are declared in a file of the package that is not among the sources. The spec's data
  model has a typed key-value map with string keys, where the last write wins, and its
  design notes say that an untyped read such as "get as string" returns the zero value
  on a type mismatch; the package's tests read the empty string for a missing key.
\<close>

datatype ctx_value = StringValue string | IntValue int | BoolValue bool | OtherValue

text \<open>
  Modelled from the spec: of the context's fields, the value store and the stored bytes
  of the initial packet, which the terminator reads.
\<close>

record Context =
  Values :: "string \<rightharpoonup> ctx_value"
  InitialPacket :: "byte list"

text \<open>Modelled from the spec: \<open>Set\<close> stores a value under a key; the last write wins.\<close>

definition Context_Set :: "Context \<Rightarrow> string \<Rightarrow> ctx_value \<Rightarrow> Context" where
  "Context_Set ctx key v = ctx\<lparr>Values := (Values ctx)(key \<mapsto> v)\<rparr>"

text \<open>
  Modelled from the spec: \<open>GetString\<close> reads a string, and the empty string for a missing
  key or a value of another type.
\<close>

definition Context_GetString :: "Context \<Rightarrow> string \<Rightarrow> string" where
  "Context_GetString ctx key =
     (case Values ctx key of Some (StringValue s) \<Rightarrow> s | _ \<Rightarrow> [])"

subsection \<open>The terminator handler\<close>

text \<open>
  Of the handler's fields, \<open>OnConnect\<close> reads \<open>internalAddr\<close> and writes the map
  \<open>backends\<close> (a \<open>sync.Map\<close> from DCID to backend address). The line it writes to the
  log is not part of the state. A nil \<open>InitialPacket\<close> is the empty list.
\<close>

record TerminatorHandler =
  internalAddr :: string
  backends :: "string \<rightharpoonup> string"

definition TerminatorHandler_OnConnect ::
  "TerminatorHandler \<Rightarrow> Context \<Rightarrow> Result \<times> TerminatorHandler \<times> Context" where
  "TerminatorHandler_OnConnect h ctx =
     (let backend = Context_GetString ctx ''backend''
      in if backend = [] then (\<lparr>Action = Drop, Error = Some ''no backend''\<rparr>, h, ctx)
         else
           let dcid = parseQUICDCID (InitialPacket ctx)
           in if dcid = [] then (\<lparr>Action = Drop, Error = Some ''no DCID in packet''\<rparr>, h, ctx)
              else
                let h' = h\<lparr>backends := (backends h)(dcid \<mapsto> backend)\<rparr>;
                    ctx' = Context_Set ctx ''backend'' (StringValue (internalAddr h))
                in (\<lparr>Action = Continue, Error = None\<rparr>, h', ctx'))"

definition TerminatorHandler_OnPacket ::
  "TerminatorHandler \<Rightarrow> Context \<Rightarrow> byte list \<Rightarrow> Direction
     \<Rightarrow> Result \<times> TerminatorHandler \<times> Context" where
  "TerminatorHandler_OnPacket h ctx packet dir = (\<lparr>Action = Continue, Error = None\<rparr>, h, ctx)"

text \<open>\<open>OnDisconnect\<close>: a nil \<open>InitialPacket\<close> has no DCID, as the empty list has none.\<close>

definition TerminatorHandler_OnDisconnect ::
  "TerminatorHandler \<Rightarrow> Context \<Rightarrow> TerminatorHandler \<times> Context" where
  "TerminatorHandler_OnDisconnect h ctx =
     (let dcid = parseQUICDCID (InitialPacket ctx)
      in if dcid \<noteq> [] then (h\<lparr>backends := (backends h)(dcid := None)\<rparr>, ctx)
         else (h, ctx))"

section \<open>Vocabulary of the properties\<close>

text \<open>
  Proof device (not in the source): the 7-bit groups of a word, least significant first,
  every group but the last with the continuation bit set. The writer's buffer holds
  exactly these groups, and the reader's loop folds them back into the word.
\<close>

function varint_groups :: "u32 \<Rightarrow> byte list" where
  "varint_groups v =
     (if drop_bit 7 v = 0 then [ucast (v AND 0x7F)]
      else (ucast (v AND 0x7F) OR 0x80) # varint_groups (drop_bit 7 v))"
  by pat_completeness auto
termination
  by (relation "measure unat") (auto simp: drop7_less)

text \<open>
  The number that a sequence of VarInt bytes encodes: seven payload bits a byte, least
  significant group first, with no bound on the size.
\<close>

fun varint_value :: "byte list \<Rightarrow> nat" where
  "varint_value [] = 0"
| "varint_value (b # bs) = unat (b AND 0x7F) + 128 * varint_value bs"

text \<open>
  The input a packet reader has not consumed yet: the buffered bytes from \<open>offset\<close> to
  \<open>buffered\<close>, then what the stream still holds.
\<close>

definition pending :: "byte list list PacketReader \<Rightarrow> byte list" where
  "pending pr = take (buffered pr - offset pr) (drop (offset pr) (buf pr)) @ concat (reader pr)"

text \<open>
  The DCID parsed from the first DCID-bearing packet of an address in a sequence of
  receptions: a reception bears a DCID when it has no error and \<open>parseQUICDCID\<close> of
  its bytes \<open>p[:n]\<close> is not empty.
\<close>

fun first_dcid :: "string \<Rightarrow> (byte list \<times> nat \<times> string \<times> error option) list \<Rightarrow> string option" where
  "first_dcid addr [] = None"
| "first_dcid addr ((p, n, a, err) # rcvs) =
     (if a = addr \<and> err = None \<and> parseQUICDCID (take n p) \<noteq> []
      then Some (parseQUICDCID (take n p))
      else first_dcid addr rcvs)"

section \<open>Properties of the byte codec\<close>

subsection \<open>VarInt round trip\<close>

declare varint_groups.simps [simp del]
declare WriteVarInt_loop.simps [simp del]
declare ReadVarInt_loop.simps [simp del]

lemma varint_groups_nonempty: "varint_groups v \<noteq> []"
  by (subst varint_groups.simps) simp

lemma WriteVarInt_loop_groups:
  "n + length (varint_groups v) \<le> length bs \<Longrightarrow>
   WriteVarInt_loop v bs n =
     Some (take n bs @ varint_groups v @ drop (n + length (varint_groups v)) bs,
           n + length (varint_groups v))"
proof (induction v arbitrary: bs n rule: varint_groups.induct)
  case (1 v)
  show ?case
  proof (cases "drop_bit 7 v = 0")
    case True
    then have g: "varint_groups v = [ucast (v AND 0x7F)]"
      by (subst varint_groups.simps) simp
    from "1.prems" g have n: "n < length bs" by simp
    show ?thesis
      using True n
      by (subst WriteVarInt_loop.simps) (simp add: g Let_def upd_conv_take_nth_drop)
  next
    case False
    then have g: "varint_groups v = (ucast (v AND 0x7F) OR 0x80) # varint_groups (drop_bit 7 v)"
      by (subst varint_groups.simps) simp
    from "1.prems" g have n: "n < length bs" by simp
    let ?b = "(ucast (v AND 0x7F) OR 0x80) :: byte"
    have len: "Suc n + length (varint_groups (drop_bit 7 v)) \<le> length (bs[n := ?b])"
      using "1.prems" g by simp
    have ih: "WriteVarInt_loop (drop_bit 7 v) (bs[n := ?b]) (Suc n) =
       Some (take (Suc n) (bs[n := ?b]) @ varint_groups (drop_bit 7 v) @
             drop (Suc n + length (varint_groups (drop_bit 7 v))) (bs[n := ?b]),
             Suc n + length (varint_groups (drop_bit 7 v)))"
      using "1.IH" [OF False len] .
    have t: "take (Suc n) (bs[n := ?b]) = take n bs @ [?b]"
      using n by (simp add: take_Suc_conv_app_nth)
    show ?thesis
      using False n
      by (subst WriteVarInt_loop.simps) (simp add: Let_def ih t g)
  qed
qed

lemma unat_drop7: "unat (drop_bit 7 (v::u32)) = unat v div 128"
  by (simp add: drop_bit_eq_div unat_div)

lemma drop7_zero_iff: "drop_bit 7 (v::u32) = 0 \<longleftrightarrow> unat v < 128"
proof -
  have "drop_bit 7 v = 0 \<longleftrightarrow> unat (drop_bit 7 v) = 0" by (simp add: unat_eq_0)
  also have "\<dots> \<longleftrightarrow> unat v < 128" unfolding unat_drop7 by arith
  finally show ?thesis .
qed

lemma length_varint_groups_bounds:
  "(if k = 0 then True else 128 ^ k \<le> unat v) \<Longrightarrow> unat v < 128 ^ Suc k \<Longrightarrow>
   length (varint_groups v) = Suc k"
proof (induction k arbitrary: v)
  case 0
  then have "drop_bit 7 v = 0" by (simp add: drop7_zero_iff)
  then show ?case by (subst varint_groups.simps) simp
next
  case (Suc k)
  from Suc.prems have ge: "128 * 128 ^ k \<le> unat v" by simp
  have "(128::nat) \<le> 128 * 128 ^ k" by simp
  from this ge have "128 \<le> unat v" by (rule le_trans)
  then have nz: "drop_bit 7 v \<noteq> 0" by (simp add: drop7_zero_iff)
  have lo: "128 ^ k \<le> unat (drop_bit 7 v)"
    using ge unfolding unat_drop7 by simp
  have hi: "unat (drop_bit 7 v) < 128 ^ Suc k"
    using Suc.prems(2) unfolding unat_drop7 by simp
  have "length (varint_groups (drop_bit 7 v)) = Suc k"
    by (rule Suc.IH) (use lo hi in auto)
  with nz show ?case by (subst varint_groups.simps) simp
qed



lemma m7_u32: "(0x7F :: u32) = mask 7" by (simp add: mask_eq_exp_minus_1)
lemma m7_byte: "(0x7F :: byte) = mask 7" by (simp add: mask_eq_exp_minus_1)
lemma bit_0x80: "bit (0x80 :: byte) n \<longleftrightarrow> n = 7"
proof -
  have "(0x80 :: byte) = 2 ^ 7" by simp
  then show ?thesis by (simp only: bit_exp_iff) auto
qed
lemma bit_0x80_gen: "bit (0x80 :: 'a::semiring_bit_operations) n \<Longrightarrow> n = 7"
proof -
  have "(0x80 :: 'a) = 2 ^ 7" by simp
  then show "bit (0x80 :: 'a) n \<Longrightarrow> n = 7" by (simp only: bit_exp_iff) 
qed

lemma low_group_clear: "(ucast ((v::u32) AND 0x7F) :: byte) AND 0x80 = 0"
  unfolding m7_u32
  by (rule bit_word_eqI) (auto simp: bit_simps bit_0x80 dest: bit_0x80_gen)

lemma low_group_set: "((ucast ((v::u32) AND 0x7F) :: byte) OR 0x80) AND 0x80 \<noteq> 0"
proof
  assume "((ucast (v AND 0x7F) :: byte) OR 0x80) AND 0x80 = 0"
  then have "\<not> bit (((ucast (v AND 0x7F) :: byte) OR 0x80) AND 0x80) 7" by simp
  then show False by (simp add: bit_simps bit_0x80)
qed

lemma group_back: "(ucast (((ucast ((v::u32) AND 0x7F) :: byte) OR 0x80) AND 0x7F) :: u32) = v AND 0x7F"
  unfolding m7_u32 m7_byte
  by (rule bit_word_eqI) (auto simp: bit_simps bit_0x80 dest: bit_0x80_gen)

lemma last_group_back: "drop_bit 7 (v::u32) = 0 \<Longrightarrow> (ucast ((ucast (v AND 0x7F) :: byte) AND 0x7F) :: u32) = v"
proof -
  assume z: "drop_bit 7 v = 0"
  have "v AND mask 7 = v"
  proof (rule bit_word_eqI)
    fix n assume "n < LENGTH(32)"
    have "\<not> bit (drop_bit 7 v) (n - 7)" using z by simp
    then have "7 \<le> n \<Longrightarrow> \<not> bit v n" by (simp add: bit_drop_bit_eq)
    then have "bit v n \<Longrightarrow> n < 7" by (cases "n < 7") auto
    then show "bit (v AND mask 7) n = bit v n" by (auto simp: bit_simps)
  qed
  moreover have "(ucast ((ucast (v AND mask 7) :: byte) AND mask 7) :: u32) = v AND mask 7"
    by (rule bit_word_eqI) (auto simp: bit_simps)
  ultimately show ?thesis unfolding m7_u32 m7_byte by simp
qed

lemma regroup: "push_bit s ((v::u32) AND 0x7F) OR push_bit (s + 7) (drop_bit 7 v) = push_bit s v"
  unfolding m7_u32
proof (rule bit_word_eqI)
  fix n assume n: "n < LENGTH(32)"
  show "bit (push_bit s (v AND mask 7) OR push_bit (s + 7) (drop_bit 7 v)) n = bit (push_bit s v) n"
  proof (cases "n - s < 7")
    case True
    then show ?thesis using n by (auto simp: bit_simps)
  next
    case False
    then have "7 + (n - (s + 7)) = n - s" "s + 7 \<le> n" by auto
    then show ?thesis using n False by (auto simp: bit_simps)
  qed
qed


lemma ReadVarInt_loop_more:
  "i < 5 \<Longrightarrow> i < length data \<Longrightarrow> data ! i AND 0x80 \<noteq> 0 \<Longrightarrow>
   ReadVarInt_loop data i acc s =
     ReadVarInt_loop data (Suc i) (acc OR push_bit s (ucast (data ! i AND 0x7F))) (s + 7)"
  by (subst ReadVarInt_loop.simps) (simp add: Let_def)

lemma ReadVarInt_loop_last:
  "i < 5 \<Longrightarrow> i < length data \<Longrightarrow> data ! i AND 0x80 = 0 \<Longrightarrow>
   ReadVarInt_loop data i acc s =
     (acc OR push_bit s (ucast (data ! i AND 0x7F)), Suc i, None)"
  by (subst ReadVarInt_loop.simps) (simp add: Let_def)

lemma ReadVarInt_loop_groups:
  "length pre = k \<Longrightarrow> k + length (varint_groups v) \<le> 5 \<Longrightarrow>
   ReadVarInt_loop (pre @ varint_groups v @ rest) k acc (7 * k) =
     (acc OR push_bit (7 * k) v, k + length (varint_groups v), None)"
proof (induction v arbitrary: pre k acc rule: varint_groups.induct)
  case (1 v)
  let ?data = "pre @ varint_groups v @ rest"
  show ?case
  proof (cases "drop_bit 7 v = 0")
    case True
    then have g: "varint_groups v = [ucast (v AND 0x7F)]"
      by (subst varint_groups.simps) simp
    from "1.prems" g have k: "k < 5" by simp
    have kl: "k < length ?data" using "1.prems"(1) g by simp
    have nth: "?data ! k = ucast (v AND 0x7F)"
      using "1.prems"(1) g by (simp add: nth_append)
    have c: "?data ! k AND 0x80 = 0"
      unfolding nth by (rule low_group_clear)
    have "ReadVarInt_loop ?data k acc (7 * k) =
          (acc OR push_bit (7 * k) (ucast (?data ! k AND 0x7F)), Suc k, None)"
      by (rule ReadVarInt_loop_last [OF k kl c])
    also have "ucast (?data ! k AND 0x7F) = v"
      unfolding nth by (rule last_group_back [OF True])
    finally show ?thesis using g by simp
  next
    case False
    let ?b = "(ucast (v AND 0x7F) OR 0x80) :: byte"
    from False have g: "varint_groups v = ?b # varint_groups (drop_bit 7 v)"
      by (subst varint_groups.simps) simp
    from "1.prems" g have k: "k < 5" by simp
    have kl: "k < length ?data" using "1.prems"(1) g by simp
    have nth: "?data ! k = ?b"
      using "1.prems"(1) g by (simp add: nth_append)
    have c: "?data ! k AND 0x80 \<noteq> 0"
      unfolding nth by (rule low_group_set)
    have d: "?data = (pre @ [?b]) @ varint_groups (drop_bit 7 v) @ rest"
      using g by simp
    have l: "length (pre @ [?b]) = Suc k" using "1.prems"(1) by simp
    have b: "Suc k + length (varint_groups (drop_bit 7 v)) \<le> 5"
      using "1.prems"(2) g by simp
    have s: "7 * k + 7 = 7 * Suc k" by simp
    have "ReadVarInt_loop ?data k acc (7 * k) =
          ReadVarInt_loop ?data (Suc k) (acc OR push_bit (7 * k) (ucast (?data ! k AND 0x7F))) (7 * k + 7)"
      by (rule ReadVarInt_loop_more [OF k kl c])
    also have "ucast (?data ! k AND 0x7F) = v AND 0x7F"
      unfolding nth by (rule group_back)
    also have "ReadVarInt_loop ?data (Suc k) (acc OR push_bit (7 * k) (v AND 0x7F)) (7 * k + 7) =
          ((acc OR push_bit (7 * k) (v AND 0x7F)) OR push_bit (7 * Suc k) (drop_bit 7 v),
               Suc k + length (varint_groups (drop_bit 7 v)), None)"
      unfolding d s using "1.IH" [OF False l b] .
    also have "(acc OR push_bit (7 * k) (v AND 0x7F)) OR push_bit (7 * Suc k) (drop_bit 7 v)
             = acc OR push_bit (7 * k) v"
      using regroup [of "7 * k" v] by (simp only: or.assoc s)
    finally show ?thesis using g by simp
  qed
qed

lemma length_varint_groups: "length (varint_groups v) = VarIntSize v"
proof -
  have u: "unat v < 128 ^ 5"
    using unsigned_less [of v, where 'a = nat] by simp
  consider "unat v < 128" | "128 \<le> unat v" "unat v < 128 ^ 2"
    | "128 ^ 2 \<le> unat v" "unat v < 128 ^ 3" | "128 ^ 3 \<le> unat v" "unat v < 128 ^ 4"
    | "128 ^ 4 \<le> unat v" "unat v < 128 ^ 5"
    using u by linarith
  then show ?thesis
  proof cases
    case 1
    then show ?thesis
      using length_varint_groups_bounds [of 0 v]
      by (simp add: VarIntSize_def word_less_nat_alt)
  next
    case 2
    then show ?thesis
      using length_varint_groups_bounds [of 1 v]
      by (simp add: VarIntSize_def word_less_nat_alt)
  next
    case 3
    then show ?thesis
      using length_varint_groups_bounds [of 2 v]
      by (simp add: VarIntSize_def word_less_nat_alt)
  next
    case 4
    then show ?thesis
      using length_varint_groups_bounds [of 3 v]
      by (simp add: VarIntSize_def word_less_nat_alt)
  next
    case 5
    then show ?thesis
      using length_varint_groups_bounds [of 4 v]
      by (simp add: VarIntSize_def word_less_nat_alt)
  qed
qed

lemma VarIntSize_le5: "VarIntSize v \<le> 5"
  by (simp add: VarIntSize_def)

lemma WriteVarInt_groups: "WriteVarInt v = Some (varint_groups v)"
proof -
  have "0 + length (varint_groups v) \<le> length (replicate 5 (0::byte))"
    using VarIntSize_le5 [of v] by (simp add: length_varint_groups)
  from WriteVarInt_loop_groups [OF this] show ?thesis
    by (simp add: WriteVarInt_def)
qed

lemma ReadVarInt_groups:
  "ReadVarInt (varint_groups v @ rest) = (v, VarIntSize v, None)"
  using ReadVarInt_loop_groups [of "[]" 0 v rest 0] VarIntSize_le5 [of v]
  by (simp add: ReadVarInt_def length_varint_groups)

lemma varint_groups_continuation:
  "i < length (varint_groups v) \<Longrightarrow>
   (varint_groups v ! i AND 0x80 = 0) = (i = length (varint_groups v) - 1)"
proof (induction v arbitrary: i rule: varint_groups.induct)
  case (1 v)
  show ?case
  proof (cases "drop_bit 7 v = 0")
    case True
    then have g: "varint_groups v = [ucast (v AND 0x7F)]"
      by (subst varint_groups.simps) simp
    with "1.prems" show ?thesis by (simp add: low_group_clear)
  next
    case False
    let ?b = "(ucast (v AND 0x7F) OR 0x80) :: byte"
    from False have g: "varint_groups v = ?b # varint_groups (drop_bit 7 v)"
      by (subst varint_groups.simps) simp
    show ?thesis
    proof (cases i)
      case 0
      then show ?thesis using g varint_groups_nonempty [of "drop_bit 7 v"]
        by (simp add: low_group_set)
    next
      case (Suc j)
      with "1.prems" g have "j < length (varint_groups (drop_bit 7 v))" by simp
      from "1.IH" [OF False this] Suc g varint_groups_nonempty [of "drop_bit 7 v"]
      show ?thesis by (cases "varint_groups (drop_bit 7 v)") auto
    qed
  qed
qed

text \<open>
  Claim C4. For every 32-bit value \<open>v\<close>, \<open>WriteVarInt v\<close> returns (its buffer of five
  bytes is never overrun), \<open>ReadVarInt\<close> of the bytes written succeeds with exactly
  \<open>(v, VarIntSize v)\<close>, the encoding has \<open>VarIntSize v\<close> bytes, and the continuation
  bit is clear in its last byte and in no other.
\<close>

theorem varint_roundtrip:
  "\<exists>ws. WriteVarInt v = Some ws \<and>
        ReadVarInt ws = (v, VarIntSize v, None) \<and>
        length ws = VarIntSize v \<and>
        (\<forall>i < length ws. (ws ! i AND 0x80 = 0) = (i = length ws - 1))"
  using ReadVarInt_groups [of v "[]"]
  by (simp add: WriteVarInt_groups length_varint_groups [symmetric] varint_groups_continuation)

theorem varint_roundtrip_witness:
  "WriteVarInt 300 = Some [0xAC, 0x02] \<and> ReadVarInt [0xAC, 0x02] = (300, 2, None) \<and>
   VarIntSize 300 = 2 \<and> (0xAC :: byte) AND 0x80 \<noteq> 0 \<and> (0x02 :: byte) AND 0x80 = 0"
proof -
  have w: "WriteVarInt 300 = Some [0xAC, 0x02]"
    by code_simp
  have s: "VarIntSize 300 = 2"
    by (simp add: VarIntSize_def)
  from varint_roundtrip [of 300] obtain ws where
    ws: "WriteVarInt 300 = Some ws" "ReadVarInt ws = (300, VarIntSize 300, None)"
        "\<forall>i < length ws. (ws ! i AND 0x80 = 0) = (i = length ws - 1)"
    by blast
  from ws(1) w have e: "ws = [0xAC, 0x02]" by simp
  from ws(3) have "(ws ! 0 AND 0x80 = 0) = (0 = length ws - 1)"
    "(ws ! 1 AND 0x80 = 0) = (1 = length ws - 1)"
    unfolding e by simp_all
  then have "(0xAC :: byte) AND 0x80 \<noteq> 0" "(0x02 :: byte) AND 0x80 = 0"
    unfolding e by simp_all
  with w s ws(2) show ?thesis unfolding e by simp
qed

subsection \<open>Five-byte VarInts\<close>

lemma group_or_add:
  "(ucast ((c::byte) AND 0x7F) :: u32) OR push_bit 7 x = ucast (c AND 0x7F) + push_bit 7 x"
proof -
  have "(ucast (c AND mask 7) :: u32) AND push_bit 7 x = 0"
    by (rule bit_word_eqI) (auto simp: bit_simps)
  then have "(ucast (c AND mask 7) :: u32) + push_bit 7 x = ucast (c AND mask 7) OR push_bit 7 x"
    by (rule disjunctive_add_eq_or)
  then show ?thesis
    unfolding m7_byte by simp
qed

lemma varint_value_Cons_word:
  "(word_of_nat (varint_value (c # cs)) :: u32) =
     ucast (c AND 0x7F) OR push_bit 7 (word_of_nat (varint_value cs))"
proof -
  have "(word_of_nat (varint_value (c # cs)) :: u32) =
        word_of_nat (unat (c AND 0x7F)) + 128 * word_of_nat (varint_value cs)"
    by simp
  also have "(word_of_nat (unat (c AND 0x7F)) :: u32) = ucast (c AND 0x7F)"
    by simp
  also have "128 * (word_of_nat (varint_value cs) :: u32) = push_bit 7 (word_of_nat (varint_value cs))"
    by (simp add: push_bit_eq_mult)
  finally show ?thesis by (simp only: group_or_add)
qed

lemma ReadVarInt_loop_run:
  "length pre = k \<Longrightarrow> k + length cs < 5 \<Longrightarrow> (\<forall>c \<in> set cs. c AND 0x80 \<noteq> 0) \<Longrightarrow>
   f AND 0x80 = 0 \<Longrightarrow>
   ReadVarInt_loop (pre @ cs @ f # rest) k acc (7 * k) =
     (acc OR push_bit (7 * k) (word_of_nat (varint_value (cs @ [f]))), k + length cs + 1, None)"
proof (induction cs arbitrary: pre k acc)
  case Nil
  let ?data = "pre @ [] @ f # rest"
  have k: "k < 5" using Nil.prems(2) by simp
  have kl: "k < length ?data" using Nil.prems(1) by simp
  have nth: "?data ! k = f" using Nil.prems(1) by (simp add: nth_append)
  have c: "?data ! k AND 0x80 = 0" unfolding nth by (rule Nil.prems(4))
  have "ReadVarInt_loop ?data k acc (7 * k) =
        (acc OR push_bit (7 * k) (ucast (?data ! k AND 0x7F)), Suc k, None)"
    by (rule ReadVarInt_loop_last [OF k kl c])
  then show ?case unfolding nth by simp
next
  case (Cons c cs)
  let ?data = "pre @ (c # cs) @ f # rest"
  have k: "k < 5" using Cons.prems(2) by simp
  have kl: "k < length ?data" using Cons.prems(1) by simp
  have nth: "?data ! k = c" using Cons.prems(1) by (simp add: nth_append)
  have c: "?data ! k AND 0x80 \<noteq> 0" unfolding nth using Cons.prems(3) by simp
  have d: "?data = (pre @ [c]) @ cs @ f # rest" by simp
  have l: "length (pre @ [c]) = Suc k" using Cons.prems(1) by simp
  have b: "Suc k + length cs < 5" using Cons.prems(2) by simp
  have a: "\<forall>c \<in> set cs. c AND 0x80 \<noteq> 0" using Cons.prems(3) by simp
  have s: "7 * k + 7 = 7 * Suc k" by simp
  have "ReadVarInt_loop ?data k acc (7 * k) =
        ReadVarInt_loop ?data (Suc k) (acc OR push_bit (7 * k) (ucast (?data ! k AND 0x7F))) (7 * k + 7)"
    by (rule ReadVarInt_loop_more [OF k kl c])
  also have "ucast (?data ! k AND 0x7F) = (ucast (c AND 0x7F) :: u32)"
    unfolding nth ..
  also have "ReadVarInt_loop ?data (Suc k) (acc OR push_bit (7 * k) (ucast (c AND 0x7F))) (7 * k + 7)
               = ((acc OR push_bit (7 * k) (ucast (c AND 0x7F)))
                   OR push_bit (7 * Suc k) (word_of_nat (varint_value (cs @ [f]))),
                 Suc k + length cs + 1, None)"
    unfolding d s using Cons.IH [OF l b a Cons.prems(4)] .
  also have "(acc OR push_bit (7 * k) (ucast (c AND 0x7F)))
                   OR push_bit (7 * Suc k) (word_of_nat (varint_value (cs @ [f])))
             = acc OR push_bit (7 * k) (word_of_nat (varint_value ((c # cs) @ [f])))"
  proof -
    have "push_bit (7 * Suc k) (word_of_nat (varint_value (cs @ [f])) :: u32) =
          push_bit (7 * k) (push_bit 7 (word_of_nat (varint_value (cs @ [f]))))"
      by (simp add: push_bit_add add.commute)
    then show ?thesis
      by (simp only: append_Cons varint_value_Cons_word or.assoc push_bit_or [symmetric])
  qed
  finally show ?case by simp
qed

text \<open>
  Claim C10, as the code has it. A five-byte encoding (the continuation bit set in the
  first four bytes and clear in the fifth) is accepted whatever the fifth byte's payload
  bits are: \<open>ReadVarInt\<close> returns no error, five bytes read, and the encoded number
  reduced modulo \<open>2 ^ 32\<close>, so the bits at positions 32 and above, which only the
  fifth byte can contribute, are dropped. Bytes after the fifth are not looked at. The
  condition on the first four bytes is needed: the loop returns at the first byte whose
  continuation bit is clear, as the last theorem of this subsection shows for five
  bytes of which the first already ends the number.
\<close>

theorem ReadVarInt_five_bytes:
  assumes "b0 AND 0x80 \<noteq> 0" and "b1 AND 0x80 \<noteq> 0" and "b2 AND 0x80 \<noteq> 0"
    and "b3 AND 0x80 \<noteq> 0" and "b4 AND 0x80 = 0"
  shows "\<exists>v. ReadVarInt ([b0, b1, b2, b3, b4] @ rest) = (v, 5, None) \<and>
             unat v = varint_value [b0, b1, b2, b3, b4] mod 2 ^ 32"
proof -
  have "ReadVarInt_loop ([] @ [b0, b1, b2, b3] @ b4 # rest) 0 0 (7 * 0) =
        (0 OR push_bit (7 * 0) (word_of_nat (varint_value ([b0, b1, b2, b3] @ [b4]))),
         0 + length [b0, b1, b2, b3] + 1, None)"
    by (rule ReadVarInt_loop_run) (use assms in simp_all)
  then have "ReadVarInt ([b0, b1, b2, b3, b4] @ rest) =
             (word_of_nat (varint_value [b0, b1, b2, b3, b4]), 5, None)"
    by (simp add: ReadVarInt_def)
  moreover have "unat (word_of_nat (varint_value [b0, b1, b2, b3, b4]) :: u32) =
                 varint_value [b0, b1, b2, b3, b4] mod 2 ^ 32"
    by (simp only: unat_of_nat) simp
  ultimately show ?thesis by blast
qed

theorem ReadVarInt_five_bytes_witness:
  "ReadVarInt [0xFF, 0xFF, 0xFF, 0xFF, 0x7F] = (0xFFFFFFFF, 5, None) \<and>
   varint_value [0xFF, 0xFF, 0xFF, 0xFF, 0x7F] = 2 ^ 35 - 1 \<and>
   (2 ^ 35 - 1) mod 2 ^ 32 = unat (0xFFFFFFFF :: u32) \<and> (2::nat) ^ 32 \<le> 2 ^ 35 - 1"
proof -
  have v: "varint_value [0xFF, 0xFF, 0xFF, 0xFF, 0x7F] = 2 ^ 35 - 1"
    by simp
  have "\<exists>v. ReadVarInt ([0xFF, 0xFF, 0xFF, 0xFF, 0x7F] @ []) = (v, 5, None) \<and>
             unat v = varint_value [0xFF, 0xFF, 0xFF, 0xFF, 0x7F] mod 2 ^ 32"
    by (rule ReadVarInt_five_bytes) simp_all
  then obtain v where r: "ReadVarInt [0xFF, 0xFF, 0xFF, 0xFF, 0x7F] = (v, 5, None)"
    and u: "unat v = varint_value [0xFF, 0xFF, 0xFF, 0xFF, 0x7F] mod 2 ^ 32"
    by auto
  from u have "unat v = unat (0xFFFFFFFF :: u32)" unfolding v by simp
  then have "v = 0xFFFFFFFF" by (simp only: word_unat_eq_iff)
  with r v show ?thesis by simp
qed

theorem ReadVarInt_five_bytes_counterexample:
  "length [0x01, 0x00, 0x00, 0x00, 0x00 :: byte] = 5 \<and>
   [0x01, 0x00, 0x00, 0x00, 0x00 :: byte] ! 4 AND 0x80 = 0 \<and>
   ReadVarInt [0x01, 0x00, 0x00, 0x00, 0x00] = (1, 1, None)"
  by (simp add: ReadVarInt_def ReadVarInt_loop.simps)

subsection \<open>String round trip\<close>

lemma unat_length_small: "n \<le> 256 \<Longrightarrow> unat (word_of_nat n :: u32) = n"
  by (simp add: unat_of_nat)

text \<open>
  Claim C9. For every string \<open>s\<close> of at most 256 bytes, \<open>WriteString s\<close> returns the
  VarInt encoding of the length of \<open>s\<close> followed by the bytes of \<open>s\<close>, and
  \<open>ReadString\<close> of that result succeeds with \<open>s\<close> and the length of the whole
  encoding as the bytes read.
\<close>

theorem string_roundtrip:
  assumes "length s \<le> 256"
  shows "\<exists>lenBytes. WriteVarInt (word_of_nat (length s)) = Some lenBytes \<and>
           WriteString s = Some (lenBytes @ s) \<and>
           ReadString (lenBytes @ s) = (s, length (lenBytes @ s), None)"
proof -
  let ?v = "word_of_nat (length s) :: u32"
  let ?g = "varint_groups ?v"
  have u: "unat ?v = length s" using assms by (rule unat_length_small)
  have w: "WriteVarInt ?v = Some ?g" by (rule WriteVarInt_groups)
  then have ws: "WriteString s = Some (?g @ s)" by (simp add: WriteString_def)
  have r: "ReadVarInt (?g @ s) = (?v, VarIntSize ?v, None)" by (rule ReadVarInt_groups)
  have le: "\<not> ?v > MaxStringLength"
    using assms u by (simp add: MaxStringLength_def word_less_nat_alt)
  have "ReadString (?g @ s) = (s, length (?g @ s), None)"
    using le by (simp add: ReadString_def r u Let_def length_varint_groups)
  with w ws show ?thesis by blast
qed

theorem string_roundtrip_witness:
  "length [0x68, 0x69 :: byte] \<le> 256 \<and> WriteString [0x68, 0x69] = Some [0x02, 0x68, 0x69] \<and>
   ReadString [0x02, 0x68, 0x69] = ([0x68, 0x69], 3, None)"
proof -
  have l: "length [0x68, 0x69 :: byte] \<le> 256" by simp
  have w: "WriteVarInt (word_of_nat (length [0x68, 0x69 :: byte])) = Some [0x02]"
    by code_simp
  from string_roundtrip [OF l] w show ?thesis by simp
qed

subsection \<open>Readers consume nothing on error\<close>

lemma ReadVarInt_loop_error:
  "ReadVarInt_loop data i acc s = (v, n, Some e) \<Longrightarrow> n = 0"
proof (induction data i acc s rule: ReadVarInt_loop.induct)
  case (1 data i result shift)
  show ?case
  proof (cases "i < 5 \<and> i < length data \<and> data ! i AND 0x80 \<noteq> 0")
    case True
    then have "ReadVarInt_loop data i result shift =
      ReadVarInt_loop data (Suc i) (result OR push_bit shift (ucast (data ! i AND 0x7F))) (shift + 7)"
      by (simp add: ReadVarInt_loop_more)
    with "1.prems" True "1.IH" [of "data ! i" "result OR push_bit shift (ucast (data ! i AND 0x7F))"]
    show ?thesis by simp
  next
    case False
    with "1.prems" show ?thesis
      by (subst (asm) ReadVarInt_loop.simps) (auto simp: Let_def split: if_splits)
  qed
qed

lemma ReadVarInt_error: "ReadVarInt data = (v, n, Some e) \<Longrightarrow> n = 0"
  unfolding ReadVarInt_def by (rule ReadVarInt_loop_error)

lemma ReadString_error: "ReadString data = (s, n, Some e) \<Longrightarrow> n = 0"
  by (auto simp: ReadString_def Let_def split: prod.splits option.splits if_splits)

lemma ReadHostAddress_error: "ReadHostAddress data = (h, p, n, Some e) \<Longrightarrow> n = 0"
  by (auto simp: ReadHostAddress_def Let_def split: prod.splits option.splits if_splits)

lemma bit10_clear_less:
  assumes "(m::u32) AND 0x400 = 0" and "unat m < 2048"
  shows "unat m < 1024"
proof -
  have "bit (m AND 0x400) 10 = bit m 10"
    by (simp add: bit_and_iff)
  with assms(1) have "\<not> bit m 10" by simp
  then have "\<not> bit (unat m) 10" by (simp add: bit_unsigned_iff)
  then have "even (unat m div 2 ^ 10)" by (simp only: bit_iff_odd) simp
  then have e: "even (unat m div 1024)" by simp
  have "unat m < 2 * 1024" using assms(2) by simp
  then have "unat m div 1024 < 2" by (rule less_mult_imp_div_less)
  with e have "unat m div 1024 = 0" by (cases "unat m div 1024 = 1") auto
  then show ?thesis by (simp add: div_eq_0_iff)
qed

lemma float16_normalize_returns:
  "mant \<noteq> 0 \<Longrightarrow> unat mant < 2048 \<Longrightarrow> \<exists>r. float16_normalize mant exp = Some r"
proof (induction "2048 - unat mant" arbitrary: mant exp rule: less_induct)
  case less
  show ?case
  proof (cases "mant AND 0x400 = 0")
    case False
    then show ?thesis by (subst float16_normalize.simps) simp
  next
    case True
    from True less.prems(2) have lt: "unat mant < 1024" by (rule bit10_clear_less)
    have "unat (2 :: u32) * unat mant < 2 ^ LENGTH(32)" using lt by simp
    then have "unat (2 * mant) = unat (2 :: u32) * unat mant"
      by (simp only: unat_mult_lem)
    then have u: "unat (push_bit 1 mant) = 2 * unat mant"
      by (simp add: push_bit_eq_mult mult.commute)
    have pos: "0 < unat mant" using less.prems(1) by (simp add: unat_gt_0)
    have nz: "push_bit 1 mant \<noteq> 0"
    proof
      assume "push_bit 1 mant = 0"
      then have "unat (push_bit 1 mant) = 0" by simp
      with u pos show False by simp
    qed
    have "\<exists>r. float16_normalize (push_bit 1 mant) (exp - 1) = Some r"
      by (rule less.hyps) (use u pos lt nz in simp_all)
    with True show ?thesis by (subst float16_normalize.simps) simp
  qed
qed

lemma float16ToFloat32_returns: "\<exists>f. float16ToFloat32 h = Some f"
proof -
  let ?mant = "(ucast h :: u32) AND 0x3FF"
  have "unat ?mant \<le> unat (0x3FF :: u32)"
    by (rule word_and_le1 [THEN word_le_nat_alt [THEN iffD1]])
  then have b: "unat ?mant < 2048" by simp
  show ?thesis
  proof (cases "?mant = 0")
    case True
    then show ?thesis by (simp add: float16ToFloat32_def Let_def)
  next
    case False
    from float16_normalize_returns [OF False b, of "127 - 14"]
    obtain r where "float16_normalize ?mant (127 - 14) = Some r" ..
    then show ?thesis
      by (cases r) (simp add: float16ToFloat32_def Let_def)
  qed
qed

lemma ReadFloat16_returns: "\<exists>r. ReadFloat16 data = Some r"
  using float16ToFloat32_returns [of "LittleEndian_Uint16 data"]
  by (auto simp: ReadFloat16_def Let_def)

lemma ReadFloat16_error: "ReadFloat16 data = Some (f, n, Some e) \<Longrightarrow> n = 0"
  by (auto simp: ReadFloat16_def Let_def split: if_splits option.splits)

lemma ReadBytes_error: "ReadBytes data k = Some (bs, n, Some e) \<Longrightarrow> n = 0"
  by (auto simp: ReadBytes_def split: if_splits)

text \<open>
  Claim C6. Each reader of the byte codec (\<open>ReadVarInt\<close>, \<open>ReadString\<close>, \<open>ReadUUID\<close>,
  \<open>ReadUint8\<close>, \<open>ReadUint16LE\<close>, \<open>ReadUint32LE\<close>, \<open>ReadUint64LE\<close>, \<open>ReadInt32LE\<close>,
  \<open>ReadFloat32LE\<close>, \<open>ReadFloat16\<close>, \<open>ReadBytes\<close>, \<open>ReadHostAddress\<close>) reports zero
  bytes consumed whenever it returns an error. \<open>ReadFloat16\<close> returns on every input
  (the normalisation loop of its conversion ends); \<open>ReadBytes\<close> with a negative count
  panics and returns nothing.
\<close>

theorem readers_error_atomic:
  "(ReadVarInt data = (v1, n1, Some e1) \<longrightarrow> n1 = 0) \<and>
   (ReadString data = (v2, n2, Some e2) \<longrightarrow> n2 = 0) \<and>
   (ReadUUID data = (v3, n3, Some e3) \<longrightarrow> n3 = 0) \<and>
   (ReadUint8 data = (v4, n4, Some e4) \<longrightarrow> n4 = 0) \<and>
   (ReadUint16LE data = (v5, n5, Some e5) \<longrightarrow> n5 = 0) \<and>
   (ReadUint32LE data = (v6, n6, Some e6) \<longrightarrow> n6 = 0) \<and>
   (ReadUint64LE data = (v7, n7, Some e7) \<longrightarrow> n7 = 0) \<and>
   (ReadInt32LE data = (v8, n8, Some e8) \<longrightarrow> n8 = 0) \<and>
   (ReadFloat32LE data = (v9, n9, Some e9) \<longrightarrow> n9 = 0) \<and>
   (ReadFloat16 data \<noteq> None \<and> (ReadFloat16 data = Some (v10, n10, Some e10) \<longrightarrow> n10 = 0)) \<and>
   (ReadBytes data k = Some (v11, n11, Some e11) \<longrightarrow> n11 = 0) \<and>
   (ReadHostAddress data = (v12, p12, n12, Some e12) \<longrightarrow> n12 = 0)"
proof -
  have c1: "ReadVarInt data = (v1, n1, Some e1) \<longrightarrow> n1 = 0"
    using ReadVarInt_error by blast
  have c2: "ReadString data = (v2, n2, Some e2) \<longrightarrow> n2 = 0"
    using ReadString_error by blast
  have c3: "ReadUUID data = (v3, n3, Some e3) \<longrightarrow> n3 = 0"
    by (simp add: ReadUUID_def split: if_splits)
  have c4: "ReadUint8 data = (v4, n4, Some e4) \<longrightarrow> n4 = 0"
    by (simp add: ReadUint8_def split: if_splits)
  have c5: "ReadUint16LE data = (v5, n5, Some e5) \<longrightarrow> n5 = 0"
    by (simp add: ReadUint16LE_def split: if_splits)
  have c6: "ReadUint32LE data = (v6, n6, Some e6) \<longrightarrow> n6 = 0"
    by (simp add: ReadUint32LE_def split: if_splits)
  have c7: "ReadUint64LE data = (v7, n7, Some e7) \<longrightarrow> n7 = 0"
    by (simp add: ReadUint64LE_def split: if_splits)
  have c8: "ReadInt32LE data = (v8, n8, Some e8) \<longrightarrow> n8 = 0"
    by (simp add: ReadInt32LE_def split: if_splits)
  have c9: "ReadFloat32LE data = (v9, n9, Some e9) \<longrightarrow> n9 = 0"
    by (simp add: ReadFloat32LE_def Let_def split: if_splits)
  have c10: "ReadFloat16 data \<noteq> None"
    using ReadFloat16_returns [of data] by auto
  have c10': "ReadFloat16 data = Some (v10, n10, Some e10) \<longrightarrow> n10 = 0"
    using ReadFloat16_error by blast
  have c11: "ReadBytes data k = Some (v11, n11, Some e11) \<longrightarrow> n11 = 0"
    using ReadBytes_error by blast
  have c12: "ReadHostAddress data = (v12, p12, n12, Some e12) \<longrightarrow> n12 = 0"
    using ReadHostAddress_error by blast
  show ?thesis
    by (intro conjI c1 c2 c3 c4 c5 c6 c7 c8 c9 c10 c10' c11 c12)
qed

theorem readers_error_atomic_witness:
  "ReadVarInt [] = (0, 0, Some ErrUnexpectedEOF) \<and>
   ReadString [] = ([], 0, Some ErrUnexpectedEOF) \<and>
   ReadUUID [] = (replicate 16 0, 0, Some ErrUnexpectedEOF) \<and>
   ReadUint8 [] = (0, 0, Some ErrUnexpectedEOF) \<and>
   ReadUint16LE [] = (0, 0, Some ErrUnexpectedEOF) \<and>
   ReadUint32LE [] = (0, 0, Some ErrUnexpectedEOF) \<and>
   ReadUint64LE [] = (0, 0, Some ErrUnexpectedEOF) \<and>
   ReadInt32LE [] = (0, 0, Some ErrUnexpectedEOF) \<and>
   ReadFloat32LE [] = (0, 0, Some ErrUnexpectedEOF) \<and>
   ReadFloat16 [] = Some (0, 0, Some ErrUnexpectedEOF) \<and>
   ReadBytes [] 1 = Some ([], 0, Some ErrUnexpectedEOF) \<and>
   ReadHostAddress [] = ([], 0, 0, Some ErrUnexpectedEOF)"
proof -
  let ?n1 = "fst (snd (ReadVarInt []))"
  let ?n2 = "fst (snd (ReadString []))"
  let ?n3 = "fst (snd (ReadUUID []))"
  let ?n4 = "fst (snd (ReadUint8 []))"
  let ?n5 = "fst (snd (ReadUint16LE []))"
  let ?n6 = "fst (snd (ReadUint32LE []))"
  let ?n7 = "fst (snd (ReadUint64LE []))"
  let ?n8 = "fst (snd (ReadInt32LE []))"
  let ?n9 = "fst (snd (ReadFloat32LE []))"
  let ?n10 = "fst (snd (the (ReadFloat16 [])))"
  let ?n11 = "fst (snd (the (ReadBytes [] 1)))"
  let ?n12 = "fst (snd (snd (ReadHostAddress [])))"
  have r1: "ReadVarInt [] = (0, ?n1, Some ErrUnexpectedEOF)"
    and r2: "ReadString [] = ([], ?n2, Some ErrUnexpectedEOF)"
    and r3: "ReadUUID [] = (replicate 16 0, ?n3, Some ErrUnexpectedEOF)"
    and r4: "ReadUint8 [] = (0, ?n4, Some ErrUnexpectedEOF)"
    and r5: "ReadUint16LE [] = (0, ?n5, Some ErrUnexpectedEOF)"
    and r6: "ReadUint32LE [] = (0, ?n6, Some ErrUnexpectedEOF)"
    and r7: "ReadUint64LE [] = (0, ?n7, Some ErrUnexpectedEOF)"
    and r8: "ReadInt32LE [] = (0, ?n8, Some ErrUnexpectedEOF)"
    and r9: "ReadFloat32LE [] = (0, ?n9, Some ErrUnexpectedEOF)"
    and r10: "ReadFloat16 [] = Some (0, ?n10, Some ErrUnexpectedEOF)"
    and r11: "ReadBytes [] 1 = Some ([], ?n11, Some ErrUnexpectedEOF)"
    and r12: "ReadHostAddress [] = ([], 0, ?n12, Some ErrUnexpectedEOF)"
    by (simp_all add: ReadVarInt_def ReadVarInt_loop.simps ReadString_def ReadUUID_def
        ReadUint8_def ReadUint16LE_def ReadUint32LE_def ReadUint64LE_def ReadInt32LE_def
        ReadFloat32LE_def ReadFloat16_def ReadBytes_def ReadHostAddress_def)
  note t = readers_error_atomic [where data = "[]" and k = 1
      and ?v1.0 = 0 and ?n1.0 = ?n1 and ?e1.0 = ErrUnexpectedEOF
      and ?v2.0 = "[]" and ?n2.0 = ?n2 and ?e2.0 = ErrUnexpectedEOF
      and ?v3.0 = "replicate 16 0" and ?n3.0 = ?n3 and ?e3.0 = ErrUnexpectedEOF
      and ?v4.0 = 0 and ?n4.0 = ?n4 and ?e4.0 = ErrUnexpectedEOF
      and ?v5.0 = 0 and ?n5.0 = ?n5 and ?e5.0 = ErrUnexpectedEOF
      and ?v6.0 = 0 and ?n6.0 = ?n6 and ?e6.0 = ErrUnexpectedEOF
      and ?v7.0 = 0 and ?n7.0 = ?n7 and ?e7.0 = ErrUnexpectedEOF
      and ?v8.0 = 0 and ?n8.0 = ?n8 and ?e8.0 = ErrUnexpectedEOF
      and ?v9.0 = 0 and ?n9.0 = ?n9 and ?e9.0 = ErrUnexpectedEOF
      and ?v10.0 = 0 and ?n10.0 = ?n10 and ?e10.0 = ErrUnexpectedEOF
      and ?v11.0 = "[]" and ?n11.0 = ?n11 and ?e11.0 = ErrUnexpectedEOF
      and ?v12.0 = "[]" and ?p12.0 = 0 and ?n12.0 = ?n12 and ?e12.0 = ErrUnexpectedEOF]
  from t r1 have "?n1 = 0" by blast
  moreover from t r2 have "?n2 = 0" by blast
  moreover from t r3 have "?n3 = 0" by blast
  moreover from t r4 have "?n4 = 0" by blast
  moreover from t r5 have "?n5 = 0" by blast
  moreover from t r6 have "?n6 = 0" by blast
  moreover from t r7 have "?n7 = 0" by blast
  moreover from t r8 have "?n8 = 0" by blast
  moreover from t r9 have "?n9 = 0" by blast
  moreover from t r10 have "?n10 = 0" by blast
  moreover from t r11 have "?n11 = 0" by blast
  moreover from t r12 have "?n12 = 0" by blast
  ultimately show ?thesis
    using r1 r2 r3 r4 r5 r6 r7 r8 r9 r10 r11 r12 by (simp only:)
qed

section \<open>Properties of the Connect packet\<close>

lemma ParseConnect_short:
  "length data < 82 \<Longrightarrow> ParseConnect data = (None, Some ErrConnectTooShort)"
  by (simp add: ParseConnect_def ConnectPacketMinSize_def)

lemma ParseConnect_long:
  "82 \<le> length data \<Longrightarrow> \<exists>cp. ParseConnect data = (Some cp, None)"
  by (simp add: ParseConnect_def ConnectPacketMinSize_def Let_def
        split: prod.splits option.splits)

text \<open>
  Claim C7. \<open>ParseConnect\<close> returns the too-short error exactly for inputs of fewer
  than 82 bytes, with no packet; for every input of at least 82 bytes it returns a packet
  and no error, whatever follows the fixed prefix of 49 bytes.
\<close>

theorem ParseConnect_min_size:
  "(snd (ParseConnect data) = Some ErrConnectTooShort \<longleftrightarrow> length data < 82) \<and>
   (length data < 82 \<longrightarrow> fst (ParseConnect data) = None) \<and>
   (82 \<le> length data \<longrightarrow> fst (ParseConnect data) \<noteq> None \<and> snd (ParseConnect data) = None)"
proof (cases "length data < 82")
  case True
  then show ?thesis by (simp add: ParseConnect_short)
next
  case False
  then have "82 \<le> length data" by simp
  from ParseConnect_long [OF this] obtain cp where "ParseConnect data = (Some cp, None)" ..
  with False show ?thesis by simp
qed

theorem ParseConnect_min_size_witness:
  "length (replicate 82 (0xFF :: byte)) = 82 \<and>
   ReadString (drop 49 (replicate 82 0xFF)) = ([], 0, Some ErrVarIntTooLong) \<and>
   fst (ParseConnect (replicate 82 0xFF)) \<noteq> None \<and>
   snd (ParseConnect (replicate 82 0xFF)) = None \<and>
   length (replicate 81 (0xFF :: byte)) < 82 \<and>
   fst (ParseConnect (replicate 81 0xFF)) = None \<and>
   snd (ParseConnect (replicate 81 0xFF)) = Some ErrConnectTooShort"
proof -
  have a: "82 \<le> length (replicate 82 (0xFF :: byte))" by simp
  have b: "length (replicate 81 (0xFF :: byte)) < 82" by simp
  have r: "ReadString (drop 49 (replicate 82 0xFF)) = ([], 0, Some ErrVarIntTooLong)"
    by code_simp
  from ParseConnect_min_size [of "replicate 82 0xFF"] ParseConnect_min_size [of "replicate 81 0xFF"] a b r
  show ?thesis by simp
qed

section \<open>Properties of the handlers\<close>

subsection \<open>DCID extraction\<close>

lemma length_hex_EncodeToString: "length (hex_EncodeToString src) = 2 * length src"
  unfolding hex_EncodeToString_def by (induction src) simp_all

text \<open>
  Claim C1, as the code has it. \<open>parseQUICDCID\<close> returns the hexadecimal text of the
  DCID, two digits a byte and so not empty, exactly for the packets of at least six bytes
  with bit 7 of byte 0 set whose length byte \<open>L\<close> (byte 5) is not zero and that hold
  \<open>L\<close> more bytes after it; for every other packet, every short-header packet among
  them, it returns the empty string. The function puts no upper bound on \<open>L\<close> below
  the 255 of a byte: a length of 21 is accepted, as the last theorem of this subsection
  shows.
\<close>

theorem parseQUICDCID_long_header:
  "(6 \<le> length packet \<and> packet ! 0 AND 0x80 \<noteq> 0 \<and> 0 < unat (packet ! 5) \<and>
      6 + unat (packet ! 5) \<le> length packet \<longrightarrow>
      parseQUICDCID packet = hex_EncodeToString (take (unat (packet ! 5)) (drop 6 packet)) \<and>
      length (parseQUICDCID packet) = 2 * unat (packet ! 5) \<and>
      parseQUICDCID packet \<noteq> []) \<and>
   (\<not> (6 \<le> length packet \<and> packet ! 0 AND 0x80 \<noteq> 0 \<and> 0 < unat (packet ! 5) \<and>
      6 + unat (packet ! 5) \<le> length packet) \<longrightarrow>
      parseQUICDCID packet = [])"
proof (cases "6 \<le> length packet \<and> packet ! 0 AND 0x80 \<noteq> 0 \<and> 0 < unat (packet ! 5) \<and>
      6 + unat (packet ! 5) \<le> length packet")
  case True
  then have e: "parseQUICDCID packet = hex_EncodeToString (take (unat (packet ! 5)) (drop 6 packet))"
    by (simp add: parseQUICDCID_def Let_def)
  have l: "length (parseQUICDCID packet) = 2 * unat (packet ! 5)"
    unfolding e length_hex_EncodeToString using True by auto
  with True have "parseQUICDCID packet \<noteq> []" by auto
  with True e l show ?thesis by simp
next
  case False
  then have "parseQUICDCID packet = []"
    by (auto simp: parseQUICDCID_def Let_def)
  with False show ?thesis by simp
qed

theorem parseQUICDCID_long_header_witness:
  "parseQUICDCID [0xC0, 0x00, 0x00, 0x00, 0x01, 0x04, 0x01, 0x02, 0x03, 0x04, 0x00] = ''01020304'' \<and>
   parseQUICDCID [0x40, 0x00, 0x00, 0x00, 0x01, 0x04, 0x01, 0x02, 0x03, 0x04, 0x00] = []"
proof -
  let ?p = "[0xC0, 0x00, 0x00, 0x00, 0x01, 0x04, 0x01, 0x02, 0x03, 0x04, 0x00] :: byte list"
  let ?q = "[0x40, 0x00, 0x00, 0x00, 0x01, 0x04, 0x01, 0x02, 0x03, 0x04, 0x00] :: byte list"
  have a: "6 \<le> length ?p \<and> ?p ! 0 AND 0x80 \<noteq> 0 \<and> 0 < unat (?p ! 5) \<and> 6 + unat (?p ! 5) \<le> length ?p"
    by simp
  have b: "\<not> (6 \<le> length ?q \<and> ?q ! 0 AND 0x80 \<noteq> 0 \<and> 0 < unat (?q ! 5) \<and> 6 + unat (?q ! 5) \<le> length ?q)"
    by simp
  have h: "hex_EncodeToString (take (unat (?p ! 5)) (drop 6 ?p)) = ''01020304''"
    by (simp add: hex_EncodeToString_def hextable_def)
  from parseQUICDCID_long_header [of ?p] a have "parseQUICDCID ?p = hex_EncodeToString (take (unat (?p ! 5)) (drop 6 ?p))"
    by blast
  moreover from parseQUICDCID_long_header [of ?q] b have "parseQUICDCID ?q = []"
    by blast
  ultimately show ?thesis using h by simp
qed

theorem parseQUICDCID_length_21_counterexample:
  "unat (([0xC0, 0x00, 0x00, 0x00, 0x01, 0x15] @ replicate 21 (0xAB :: byte)) ! 5) = 21 \<and>
   \<not> (21 \<le> (20 :: nat)) \<and>
   parseQUICDCID ([0xC0, 0x00, 0x00, 0x00, 0x01, 0x15] @ replicate 21 0xAB) =
     ''ababababababababababababababababababababab''"
  by code_simp

subsection \<open>The tracker latches the first DCID\<close>

lemma parseQUICDCID_nonempty_length: "parseQUICDCID packet \<noteq> [] \<Longrightarrow> 6 < length packet"
  by (auto simp: parseQUICDCID_def Let_def split: if_splits)

lemma parseQUICDCID_take_nonempty: "parseQUICDCID (take n p) \<noteq> [] \<Longrightarrow> 6 < n"
  using parseQUICDCID_nonempty_length [of "take n p"] by simp

lemma ReadFrom_keeps:
  "byAddr t addr = Some d \<Longrightarrow> byAddr (snd (dcidTracker_ReadFrom t rcv)) addr = Some d"
  by (cases rcv) (auto simp: dcidTracker_ReadFrom_def Let_def)

lemma ReadFrom_all_keeps:
  "byAddr t addr = Some d \<Longrightarrow> byAddr (dcidTracker_ReadFrom_all t rcvs) addr = Some d"
  by (induction rcvs arbitrary: t) (simp_all add: ReadFrom_keeps)

lemma ReadFrom_first:
  "byAddr t addr = None \<Longrightarrow>
   byAddr (snd (dcidTracker_ReadFrom t (p, n, a, err))) addr =
     (if a = addr \<and> err = None \<and> parseQUICDCID (take n p) \<noteq> []
      then Some (parseQUICDCID (take n p)) else None)"
  using parseQUICDCID_take_nonempty [of n p]
  by (auto simp: dcidTracker_ReadFrom_def Let_def)

lemma ReadFrom_all_first:
  "byAddr t addr = None \<Longrightarrow>
   byAddr (dcidTracker_ReadFrom_all t rcvs) addr = first_dcid addr rcvs"
proof (induction rcvs arbitrary: t)
  case Nil
  then show ?case by simp
next
  case (Cons rcv rcvs)
  obtain p n a err where rcv: "rcv = (p, n, a, err)" by (cases rcv)
  show ?case
  proof (cases "a = addr \<and> err = None \<and> parseQUICDCID (take n p) \<noteq> []")
    case True
    with Cons.prems have "byAddr (snd (dcidTracker_ReadFrom t rcv)) addr = Some (parseQUICDCID (take n p))"
      unfolding rcv by (simp add: ReadFrom_first)
    then have "byAddr (dcidTracker_ReadFrom_all (snd (dcidTracker_ReadFrom t rcv)) rcvs) addr
               = Some (parseQUICDCID (take n p))"
      by (rule ReadFrom_all_keeps)
    with True show ?thesis unfolding rcv by simp
  next
    case False
    with Cons.prems have "byAddr (snd (dcidTracker_ReadFrom t rcv)) addr = None"
      unfolding rcv by (simp add: ReadFrom_first)
    then have "byAddr (dcidTracker_ReadFrom_all (snd (dcidTracker_ReadFrom t rcv)) rcvs) addr
               = first_dcid addr rcvs"
      by (rule Cons.IH)
    with False show ?thesis unfolding rcv by auto
  qed
qed

text \<open>
  Claim C8. Once the tracker has an entry for an address, no \<open>ReadFrom\<close> step and no
  sequence of \<open>ReadFrom\<close> steps changes it; starting without an entry, the entry after
  any sequence of \<open>ReadFrom\<close> steps is the DCID parsed from the first DCID-bearing
  packet received from that address (none when there is no such packet). \<open>Delete\<close>
  removes the entry.
\<close>

theorem dcid_first_write_wins:
  "(byAddr t addr = Some d \<longrightarrow>
      byAddr (snd (dcidTracker_ReadFrom t rcv)) addr = Some d \<and>
      byAddr (dcidTracker_ReadFrom_all t rcvs) addr = Some d) \<and>
   (byAddr t addr = None \<longrightarrow>
      byAddr (dcidTracker_ReadFrom_all t rcvs) addr = first_dcid addr rcvs) \<and>
   byAddr (dcidTracker_Delete t addr) addr = None"
  by (simp add: ReadFrom_keeps ReadFrom_all_keeps ReadFrom_all_first dcidTracker_Delete_def)

theorem dcid_first_write_wins_witness:
  "byAddr newDCIDTracker ''10.0.0.1:4000'' = None \<and>
   byAddr (dcidTracker_ReadFrom_all newDCIDTracker
     [([0x40, 0x00, 0x00, 0x00, 0x01, 0x02, 0x07, 0x07, 0x00], 9, ''10.0.0.1:4000'', None),
      ([0xC0, 0x00, 0x00, 0x00, 0x01, 0x02, 0x01, 0x02, 0x00, 0xEE], 9, ''10.0.0.1:4000'', None),
      ([0xC0, 0x00, 0x00, 0x00, 0x01, 0x02, 0xAA, 0xBB, 0x00], 9, ''10.0.0.1:4000'', None)])
     ''10.0.0.1:4000'' = Some ''0102'' \<and>
   byAddr \<lparr>byAddr = [''10.0.0.1:4000'' \<mapsto> ''0102''], closed = False\<rparr> ''10.0.0.1:4000''
     = Some ''0102'' \<and>
   parseQUICDCID (take 9 [0xC0, 0x00, 0x00, 0x00, 0x01, 0x02, 0xAA, 0xBB, 0x00]) = ''aabb'' \<and>
   byAddr (snd (dcidTracker_ReadFrom \<lparr>byAddr = [''10.0.0.1:4000'' \<mapsto> ''0102''], closed = False\<rparr>
     ([0xC0, 0x00, 0x00, 0x00, 0x01, 0x02, 0xAA, 0xBB, 0x00], 9, ''10.0.0.1:4000'', None)))
     ''10.0.0.1:4000'' = Some ''0102''"
proof -
  let ?a = "''10.0.0.1:4000''"
  let ?r3 = "([0xC0, 0x00, 0x00, 0x00, 0x01, 0x02, 0xAA, 0xBB, 0x00], 9, ?a, None)
      :: byte list \<times> nat \<times> string \<times> error option"
  let ?rcvs = "[([0x40, 0x00, 0x00, 0x00, 0x01, 0x02, 0x07, 0x07, 0x00], 9, ?a, None),
      ([0xC0, 0x00, 0x00, 0x00, 0x01, 0x02, 0x01, 0x02, 0x00, 0xEE], 9, ?a, None), ?r3]
      :: (byte list \<times> nat \<times> string \<times> error option) list"
  let ?t = "\<lparr>byAddr = [?a \<mapsto> ''0102''], closed = False\<rparr>"
  have n: "byAddr newDCIDTracker ?a = None"
    by (simp add: newDCIDTracker_def)
  have f: "first_dcid ?a ?rcvs = Some ''0102''"
    by (simp add: parseQUICDCID_def hex_EncodeToString_def hextable_def)
  have p: "parseQUICDCID (take 9 [0xC0, 0x00, 0x00, 0x00, 0x01, 0x02, 0xAA, 0xBB, 0x00]) = ''aabb''"
    by (simp add: parseQUICDCID_def hex_EncodeToString_def hextable_def)
  have s: "byAddr ?t ?a = Some ''0102''"
    by simp
  from dcid_first_write_wins [where t = newDCIDTracker and addr = ?a and rcvs = ?rcvs] n
  have "byAddr (dcidTracker_ReadFrom_all newDCIDTracker ?rcvs) ?a = first_dcid ?a ?rcvs"
    by blast
  moreover from dcid_first_write_wins [where t = ?t and addr = ?a and d = "''0102''" and rcv = ?r3] s
  have "byAddr (snd (dcidTracker_ReadFrom ?t ?r3)) ?a = Some ''0102''"
    by blast
  ultimately show ?thesis using n f p s by simp
qed

subsection \<open>Chain invocation\<close>

lemma Chain_OnConnect_stops:
  "all_Continue (map OnConnect pre) w = Some w1 \<Longrightarrow> OnConnect h w1 = (res, w2) \<Longrightarrow>
   Action res \<noteq> Continue \<Longrightarrow> Chain_OnConnect (pre @ h # post) w = (res, w2)"
  by (induction pre arbitrary: w) (auto split: prod.splits if_splits)

lemma Chain_OnConnect_unclaimed:
  "all_Continue (map OnConnect hs) w = Some w' \<Longrightarrow>
   Chain_OnConnect hs w = (\<lparr>Action = Drop, Error = None\<rparr>, w')"
  by (induction hs arbitrary: w) (auto split: prod.splits if_splits)

lemma Chain_OnPacket_stops:
  "all_Continue (map (\<lambda>x. OnPacket x packet dir) pre) w = Some w1 \<Longrightarrow>
   OnPacket h packet dir w1 = (res, w2) \<Longrightarrow> Action res \<noteq> Continue \<Longrightarrow>
   Chain_OnPacket (pre @ h # post) packet dir w = (res, w2)"
  by (induction pre arbitrary: w) (auto split: prod.splits if_splits)

lemma Chain_OnPacket_unclaimed:
  "all_Continue (map (\<lambda>x. OnPacket x packet dir) hs) w = Some w' \<Longrightarrow>
   Chain_OnPacket hs packet dir w = (\<lparr>Action = Drop, Error = None\<rparr>, w')"
  by (induction hs arbitrary: w) (auto split: prod.splits if_splits)

text \<open>
  Claim C2. One invocation of \<open>Chain.OnConnect\<close> or \<open>Chain.OnPacket\<close> runs the handlers
  from left to right, each on the state its predecessor left. When the handlers of a
  prefix all return \<open>Continue\<close> and the next handler returns a result with another
  action (\<open>Handled\<close> or \<open>Drop\<close>), the chain returns that very result and the state
  that handler left, whatever handlers follow: none of them is invoked. When every
  handler returns \<open>Continue\<close>, and so for the empty chain, the chain returns \<open>Drop\<close>.
\<close>

theorem chain_invocation:
  "(all_Continue (map OnConnect pre) w = Some w1 \<and> OnConnect h w1 = (res, w2) \<and>
      Action res \<noteq> Continue \<longrightarrow>
      Chain_OnConnect (pre @ h # post) w = (res, w2)) \<and>
   (all_Continue (map OnConnect hs) w = Some w' \<longrightarrow>
      Chain_OnConnect hs w = (\<lparr>Action = Drop, Error = None\<rparr>, w')) \<and>
   Chain_OnConnect [] w = (\<lparr>Action = Drop, Error = None\<rparr>, w) \<and>
   (all_Continue (map (\<lambda>x. OnPacket x packet dir) pre) w = Some w1 \<and>
      OnPacket h packet dir w1 = (res, w2) \<and> Action res \<noteq> Continue \<longrightarrow>
      Chain_OnPacket (pre @ h # post) packet dir w = (res, w2)) \<and>
   (all_Continue (map (\<lambda>x. OnPacket x packet dir) hs) w = Some w' \<longrightarrow>
      Chain_OnPacket hs packet dir w = (\<lparr>Action = Drop, Error = None\<rparr>, w')) \<and>
   Chain_OnPacket [] packet dir w = (\<lparr>Action = Drop, Error = None\<rparr>, w)"
  using Chain_OnConnect_stops [of pre w w1 h res w2 post]
    Chain_OnConnect_unclaimed [of hs w w']
    Chain_OnPacket_stops [of packet dir pre w w1 h res w2 post]
    Chain_OnPacket_unclaimed [of packet dir hs w w']
  by simp

theorem chain_invocation_witness:
  "Chain_OnConnect [mockHandler ''h1'' Continue Continue, mockHandler ''h2'' Handled Drop,
                    mockHandler ''h3'' Continue Continue] []
     = (\<lparr>Action = Handled, Error = None\<rparr>, [''h1.OnConnect'', ''h2.OnConnect'']) \<and>
   Chain_OnConnect [mockHandler ''h1'' Continue Continue, mockHandler ''h3'' Continue Continue] []
     = (\<lparr>Action = Drop, Error = None\<rparr>, [''h1.OnConnect'', ''h3.OnConnect'']) \<and>
   Chain_OnPacket [mockHandler ''h1'' Continue Continue, mockHandler ''h2'' Handled Drop,
                   mockHandler ''h3'' Continue Continue] [0x40] Inbound []
     = (\<lparr>Action = Drop, Error = None\<rparr>, [''h1.OnPacket'', ''h2.OnPacket'']) \<and>
   Chain_OnPacket [mockHandler ''h1'' Continue Continue, mockHandler ''h3'' Continue Continue]
                  [0x40] Inbound []
     = (\<lparr>Action = Drop, Error = None\<rparr>, [''h1.OnPacket'', ''h3.OnPacket''])"
proof -
  let ?h1 = "mockHandler ''h1'' Continue Continue"
  let ?h2 = "mockHandler ''h2'' Handled Drop"
  let ?h3 = "mockHandler ''h3'' Continue Continue"
  have a1: "all_Continue (map OnConnect [?h1]) [] = Some [''h1.OnConnect'']"
    by (simp add: mockHandler_def)
  have a2: "OnConnect ?h2 [''h1.OnConnect'']
            = (\<lparr>Action = Handled, Error = None\<rparr>, [''h1.OnConnect'', ''h2.OnConnect''])"
    by (simp add: mockHandler_def)
  have a3: "Action \<lparr>Action = Handled, Error = None\<rparr> \<noteq> Continue"
    by simp
  have b1: "all_Continue (map OnConnect [?h1, ?h3]) [] = Some [''h1.OnConnect'', ''h3.OnConnect'']"
    by (simp add: mockHandler_def)
  have c1: "all_Continue (map (\<lambda>x. OnPacket x [0x40] Inbound) [?h1]) [] = Some [''h1.OnPacket'']"
    by (simp add: mockHandler_def)
  have c2: "OnPacket ?h2 [0x40] Inbound [''h1.OnPacket'']
            = (\<lparr>Action = Drop, Error = None\<rparr>, [''h1.OnPacket'', ''h2.OnPacket''])"
    by (simp add: mockHandler_def)
  have c3: "Action \<lparr>Action = Drop, Error = None\<rparr> \<noteq> Continue"
    by simp
  have d1: "all_Continue (map (\<lambda>x. OnPacket x [0x40] Inbound) [?h1, ?h3]) []
            = Some [''h1.OnPacket'', ''h3.OnPacket'']"
    by (simp add: mockHandler_def)
  from chain_invocation [where pre = "[?h1]" and w = "[]" and ?w1.0 = "[''h1.OnConnect'']"
      and h = ?h2 and res = "\<lparr>Action = Handled, Error = None\<rparr>"
      and ?w2.0 = "[''h1.OnConnect'', ''h2.OnConnect'']" and post = "[?h3]"
      and hs = "[?h1, ?h3]" and w' = "[''h1.OnConnect'', ''h3.OnConnect'']"] a1 a2 a3 b1
  have "Chain_OnConnect ([?h1] @ ?h2 # [?h3]) [] =
          (\<lparr>Action = Handled, Error = None\<rparr>, [''h1.OnConnect'', ''h2.OnConnect''])"
    and "Chain_OnConnect [?h1, ?h3] [] =
          (\<lparr>Action = Drop, Error = None\<rparr>, [''h1.OnConnect'', ''h3.OnConnect''])"
    by blast+
  moreover
  from chain_invocation [where pre = "[?h1]" and w = "[]" and ?w1.0 = "[''h1.OnPacket'']"
      and h = ?h2 and res = "\<lparr>Action = Drop, Error = None\<rparr>"
      and ?w2.0 = "[''h1.OnPacket'', ''h2.OnPacket'']" and post = "[?h3]"
      and hs = "[?h1, ?h3]" and w' = "[''h1.OnPacket'', ''h3.OnPacket'']"
      and packet = "[0x40]" and dir = Inbound] c1 c2 c3 d1
  have "Chain_OnPacket ([?h1] @ ?h2 # [?h3]) [0x40] Inbound [] =
          (\<lparr>Action = Drop, Error = None\<rparr>, [''h1.OnPacket'', ''h2.OnPacket''])"
    and "Chain_OnPacket [?h1, ?h3] [0x40] Inbound [] =
          (\<lparr>Action = Drop, Error = None\<rparr>, [''h1.OnPacket'', ''h3.OnPacket''])"
    by blast+
  ultimately show ?thesis by simp
qed

subsection \<open>The terminator's OnConnect\<close>

text \<open>
  Claim C3. When the context's \<open>backend\<close> string is not empty and a non-empty DCID
  parses from the initial packet, \<open>OnConnect\<close> returns \<open>Continue\<close> without an error,
  the registry maps the DCID to that backend (its other entries as before), and the
  context's \<open>backend\<close> is the terminator's internal address (its other keys and the
  initial packet as before). When the backend is empty or no DCID parses, it returns
  \<open>Drop\<close> with an error and leaves the handler, its registry included, and the context
  unchanged.
\<close>

theorem terminator_OnConnect:
  "(Context_GetString ctx ''backend'' \<noteq> [] \<and> parseQUICDCID (InitialPacket ctx) \<noteq> [] \<longrightarrow>
      (case TerminatorHandler_OnConnect h ctx of
         (result, h', ctx') \<Rightarrow>
           result = \<lparr>Action = Continue, Error = None\<rparr> \<and>
           backends h' (parseQUICDCID (InitialPacket ctx)) = Some (Context_GetString ctx ''backend'') \<and>
           (\<forall>k. k \<noteq> parseQUICDCID (InitialPacket ctx) \<longrightarrow> backends h' k = backends h k) \<and>
           internalAddr h' = internalAddr h \<and>
           Values ctx' ''backend'' = Some (StringValue (internalAddr h)) \<and>
           Context_GetString ctx' ''backend'' = internalAddr h \<and>
           (\<forall>k. k \<noteq> ''backend'' \<longrightarrow> Values ctx' k = Values ctx k) \<and>
           InitialPacket ctx' = InitialPacket ctx)) \<and>
   (Context_GetString ctx ''backend'' = [] \<or> parseQUICDCID (InitialPacket ctx) = [] \<longrightarrow>
      (case TerminatorHandler_OnConnect h ctx of
         (result, h', ctx') \<Rightarrow> Action result = Drop \<and> Error result \<noteq> None \<and> h' = h \<and> ctx' = ctx))"
  by (auto simp: TerminatorHandler_OnConnect_def Let_def Context_Set_def Context_GetString_def)

theorem terminator_OnConnect_witness:
  "TerminatorHandler_OnConnect
     \<lparr>internalAddr = ''127.0.0.1:5521'', backends = Map.empty\<rparr>
     \<lparr>Values = [''backend'' \<mapsto> StringValue ''backend.example.com:25565''],
      InitialPacket = [0xC0, 0x00, 0x00, 0x00, 0x01, 0x04, 0x01, 0x02, 0x03, 0x04, 0x00, 0x00]\<rparr>
   = (\<lparr>Action = Continue, Error = None\<rparr>,
      \<lparr>internalAddr = ''127.0.0.1:5521'',
       backends = [''01020304'' \<mapsto> ''backend.example.com:25565'']\<rparr>,
      \<lparr>Values = [''backend'' \<mapsto> StringValue ''127.0.0.1:5521''],
       InitialPacket = [0xC0, 0x00, 0x00, 0x00, 0x01, 0x04, 0x01, 0x02, 0x03, 0x04, 0x00, 0x00]\<rparr>) \<and>
   TerminatorHandler_OnConnect
     \<lparr>internalAddr = ''127.0.0.1:5521'', backends = Map.empty\<rparr>
     \<lparr>Values = Map.empty,
      InitialPacket = [0xC0, 0x00, 0x00, 0x00, 0x01, 0x04, 0x01, 0x02, 0x03, 0x04, 0x00, 0x00]\<rparr>
   = (\<lparr>Action = Drop, Error = Some ''no backend''\<rparr>,
      \<lparr>internalAddr = ''127.0.0.1:5521'', backends = Map.empty\<rparr>,
      \<lparr>Values = Map.empty,
       InitialPacket = [0xC0, 0x00, 0x00, 0x00, 0x01, 0x04, 0x01, 0x02, 0x03, 0x04, 0x00, 0x00]\<rparr>)"
proof -
  let ?h = "\<lparr>internalAddr = ''127.0.0.1:5521'', backends = Map.empty\<rparr>"
  let ?pkt = "[0xC0, 0x00, 0x00, 0x00, 0x01, 0x04, 0x01, 0x02, 0x03, 0x04, 0x00, 0x00] :: byte list"
  let ?c1 = "\<lparr>Values = [''backend'' \<mapsto> StringValue ''backend.example.com:25565''],
              InitialPacket = ?pkt\<rparr>"
  let ?c2 = "\<lparr>Values = Map.empty, InitialPacket = ?pkt\<rparr>"
  have d: "parseQUICDCID ?pkt = ''01020304''"
    by (simp add: parseQUICDCID_def hex_EncodeToString_def hextable_def)
  have g1: "Context_GetString ?c1 ''backend'' = ''backend.example.com:25565''"
    by (simp add: Context_GetString_def)
  have g2: "Context_GetString ?c2 ''backend'' = []"
    by (simp add: Context_GetString_def)
  obtain r1 h1 c1 where e1: "TerminatorHandler_OnConnect ?h ?c1 = (r1, h1, c1)"
    by (cases "TerminatorHandler_OnConnect ?h ?c1")
  obtain r2 h2 c2 where e2: "TerminatorHandler_OnConnect ?h ?c2 = (r2, h2, c2)"
    by (cases "TerminatorHandler_OnConnect ?h ?c2")
  from terminator_OnConnect [of ?c1 ?h] d g1 e1
  have s1: "r1 = \<lparr>Action = Continue, Error = None\<rparr>"
    "backends h1 ''01020304'' = Some ''backend.example.com:25565''"
    "\<forall>k. k \<noteq> ''01020304'' \<longrightarrow> backends h1 k = None"
    "internalAddr h1 = ''127.0.0.1:5521''"
    "Values c1 ''backend'' = Some (StringValue ''127.0.0.1:5521'')"
    "\<forall>k. k \<noteq> ''backend'' \<longrightarrow> Values c1 k = Values ?c1 k"
    "InitialPacket c1 = ?pkt"
    by simp_all
  from s1(2,3) have b1: "backends h1 = [''01020304'' \<mapsto> ''backend.example.com:25565'']"
    by (intro ext) simp
  from s1(5,6) have v1: "Values c1 = [''backend'' \<mapsto> StringValue ''127.0.0.1:5521'']"
    by (intro ext) simp
  from terminator_OnConnect [of ?c2 ?h] g2 e2
  have s2: "Action r2 = Drop" "h2 = ?h" "c2 = ?c2"
    by simp_all
  have "r2 = \<lparr>Action = Drop, Error = Some ''no backend''\<rparr>"
    using e2 by (simp add: TerminatorHandler_OnConnect_def g2)
  with e1 e2 s1 s2 b1 v1 show ?thesis by simp
qed

section \<open>Properties of the framed packets\<close>

lemma byte_of_u32:
  "(ucast (ucast (drop_bit k (v::u32)) :: byte) :: u32) = take_bit 8 (drop_bit k v)"
  by (rule bit_word_eqI) (auto simp: bit_simps)

lemma Uint32_PutUint32: "LittleEndian_Uint32 (LittleEndian_PutUint32 v @ xs) = v"
proof -
  have "LittleEndian_Uint32 (LittleEndian_PutUint32 v @ xs) =
        take_bit 8 (drop_bit 0 v) OR push_bit 8 (take_bit 8 (drop_bit 8 v))
          OR push_bit 16 (take_bit 8 (drop_bit 16 v)) OR push_bit 24 (take_bit 8 (drop_bit 24 v))"
    unfolding LittleEndian_Uint32_def LittleEndian_PutUint32_def
    using byte_of_u32 [of 0 v] byte_of_u32 [of 8 v] byte_of_u32 [of 16 v] byte_of_u32 [of 24 v]
    by simp
  also have "\<dots> = v"
  proof (rule bit_word_eqI)
    fix n assume "n < LENGTH(32)"
    then consider "n < 8" | "8 \<le> n" "n < 16" | "16 \<le> n" "n < 24" | "24 \<le> n" "n < 32"
      by fastforce
    then show "bit (take_bit 8 (drop_bit 0 v) OR push_bit 8 (take_bit 8 (drop_bit 8 v))
          OR push_bit 16 (take_bit 8 (drop_bit 16 v)) OR push_bit 24 (take_bit 8 (drop_bit 24 v))) n
          = bit v n"
      by cases (auto simp: bit_simps)
  qed
  finally show ?thesis .
qed

lemma Uint32_prefix:
  assumes "take 4 xs = LittleEndian_PutUint32 v"
  shows "LittleEndian_Uint32 xs = v"
proof -
  have "xs = LittleEndian_PutUint32 v @ drop 4 xs"
    using append_take_drop_id [of 4 xs] assms by simp
  then have "LittleEndian_Uint32 xs = LittleEndian_Uint32 (LittleEndian_PutUint32 v @ drop 4 xs)"
    by simp
  then show ?thesis by (simp only: Uint32_PutUint32)
qed

lemma length_PutUint32: "length (LittleEndian_PutUint32 v) = 4"
  by (simp add: LittleEndian_PutUint32_def)

lemma ensureBytes_loop_stream:
  fixes pr :: "byte list list PacketReader"
  assumes "buffered pr \<le> length (buf pr)" and "n \<le> length (buf pr)"
    and "n \<le> buffered pr + length (concat (reader pr))"
  shows "\<exists>pr'. ensureBytes_loop stream_Read n pr = Some (None, pr') \<and>
           n \<le> buffered pr' \<and> buffered pr' \<le> length (buf pr') \<and>
           offset pr' = offset pr \<and> length (buf pr') = length (buf pr) \<and>
           take (buffered pr') (buf pr') @ concat (reader pr') =
             take (buffered pr) (buf pr) @ concat (reader pr)"
  using assms
proof (induction "length (concat (reader pr)) + length (reader pr)" arbitrary: pr rule: less_induct)
  case less
  show ?case
  proof (cases "buffered pr < n")
    case False
    then have "ensureBytes_loop stream_Read n pr = Some (None, pr)"
      by (subst ensureBytes_loop.simps) simp
    with False less.prems(1) show ?thesis by auto
  next
    case short: True
    then obtain c cs where r: "reader pr = c # cs"
      using less.prems(3) by (cases "reader pr") auto
    let ?cap = "length (buf pr) - buffered pr"
    have cap: "0 < ?cap" using short less.prems(2) by simp
    show ?thesis
    proof (cases "length c \<le> ?cap")
      case True
      let ?pr' = "pr\<lparr>reader := cs,
                     buf := take (buffered pr) (buf pr) @ c @ drop (buffered pr + length c) (buf pr),
                     buffered := buffered pr + length c\<rparr>"
      have step: "ensureBytes_loop stream_Read n pr = ensureBytes_loop stream_Read n ?pr'"
        using short r True by (subst ensureBytes_loop.simps) (simp add: Let_def)
      have len: "length (buf ?pr') = length (buf pr)"
        using True less.prems(1) by simp
      have tk: "take (buffered ?pr') (buf ?pr') = take (buffered pr) (buf pr) @ c"
        using less.prems(1) by simp
      have "\<exists>pr''. ensureBytes_loop stream_Read n ?pr' = Some (None, pr'') \<and>
           n \<le> buffered pr'' \<and> buffered pr'' \<le> length (buf pr'') \<and>
           offset pr'' = offset ?pr' \<and> length (buf pr'') = length (buf ?pr') \<and>
           take (buffered pr'') (buf pr'') @ concat (reader pr'') =
             take (buffered ?pr') (buf ?pr') @ concat (reader ?pr')"
      proof (rule less.hyps)
        show "length (concat (reader ?pr')) + length (reader ?pr')
              < length (concat (reader pr)) + length (reader pr)"
          using r by simp
        show "buffered ?pr' \<le> length (buf ?pr')"
          using True less.prems(1) by simp
        show "n \<le> length (buf ?pr')"
          using len less.prems(2) by simp
        show "n \<le> buffered ?pr' + length (concat (reader ?pr'))"
          using less.prems(3) r by simp
      qed
      then obtain pr'' where
        p: "ensureBytes_loop stream_Read n ?pr' = Some (None, pr'')"
          "n \<le> buffered pr''" "buffered pr'' \<le> length (buf pr'')"
          "offset pr'' = offset ?pr'" "length (buf pr'') = length (buf ?pr')"
          "take (buffered pr'') (buf pr'') @ concat (reader pr'') =
             take (buffered ?pr') (buf ?pr') @ concat (reader ?pr')"
        by blast
      have e: "take (buffered pr'') (buf pr'') @ concat (reader pr'') =
            take (buffered pr) (buf pr) @ concat (reader pr)"
        unfolding p(6) tk using r by simp
      have o: "offset pr'' = offset pr" using p(4) by simp
      have l: "length (buf pr'') = length (buf pr)" using p(5) len by simp
      have s: "ensureBytes_loop stream_Read n pr = Some (None, pr'')"
        unfolding step by (rule p(1))
      from s p(2) p(3) o l e show ?thesis by blast
    next
      case False
      let ?pr' = "pr\<lparr>reader := drop ?cap c # cs,
                     buf := take (buffered pr) (buf pr) @ take ?cap c
                            @ drop (buffered pr + length (take ?cap c)) (buf pr),
                     buffered := buffered pr + length (take ?cap c)\<rparr>"
      have lt: "length (take ?cap c) = ?cap" using False by simp
      have step: "ensureBytes_loop stream_Read n pr = ensureBytes_loop stream_Read n ?pr'"
        using short r False by (subst ensureBytes_loop.simps) (simp add: Let_def)
      have len: "length (buf ?pr') = length (buf pr)"
        using lt less.prems(1) by simp
      have bf: "buffered ?pr' = length (buf pr)"
        using lt less.prems(1) by simp
      have tk: "take (buffered ?pr') (buf ?pr') = take (buffered pr) (buf pr) @ take ?cap c"
        using less.prems(1) lt by simp
      have "\<exists>pr''. ensureBytes_loop stream_Read n ?pr' = Some (None, pr'') \<and>
           n \<le> buffered pr'' \<and> buffered pr'' \<le> length (buf pr'') \<and>
           offset pr'' = offset ?pr' \<and> length (buf pr'') = length (buf ?pr') \<and>
           take (buffered pr'') (buf pr'') @ concat (reader pr'') =
             take (buffered ?pr') (buf ?pr') @ concat (reader ?pr')"
      proof (rule less.hyps)
        show "length (concat (reader ?pr')) + length (reader ?pr')
              < length (concat (reader pr)) + length (reader pr)"
          using r False cap by simp
        show "buffered ?pr' \<le> length (buf ?pr')"
          using len bf by simp
        show "n \<le> length (buf ?pr')"
          using len less.prems(2) by simp
        show "n \<le> buffered ?pr' + length (concat (reader ?pr'))"
          using bf less.prems(2) by simp
      qed
      then obtain pr'' where
        p: "ensureBytes_loop stream_Read n ?pr' = Some (None, pr'')"
          "n \<le> buffered pr''" "buffered pr'' \<le> length (buf pr'')"
          "offset pr'' = offset ?pr'" "length (buf pr'') = length (buf ?pr')"
          "take (buffered pr'') (buf pr'') @ concat (reader pr'') =
             take (buffered ?pr') (buf ?pr') @ concat (reader ?pr')"
        by blast
      have e: "take (buffered pr'') (buf pr'') @ concat (reader pr'') =
            take (buffered pr) (buf pr) @ concat (reader pr)"
        unfolding p(6) tk using r by simp
      have o: "offset pr'' = offset pr" using p(4) by simp
      have l: "length (buf pr'') = length (buf pr)" using p(5) len by simp
      have s: "ensureBytes_loop stream_Read n pr = Some (None, pr'')"
        unfolding step by (rule p(1))
      from s p(2) p(3) o l e show ?thesis by blast
    qed
  qed
qed

lemma ensureBytes_stream:
  fixes pr :: "byte list list PacketReader"
  assumes "offset pr \<le> buffered pr" and "buffered pr \<le> length (buf pr)"
    and "n \<le> length (pending pr)"
  shows "\<exists>pr'. ensureBytes stream_Read n pr = Some (None, pr') \<and>
           offset pr' \<le> buffered pr' \<and> buffered pr' \<le> length (buf pr') \<and>
           n \<le> buffered pr' - offset pr' \<and> pending pr' = pending pr"
proof (cases "n \<le> buffered pr - offset pr")
  case True
  then have "ensureBytes stream_Read n pr = Some (None, pr)"
    by (simp add: ensureBytes_def)
  with True assms(1,2) show ?thesis by blast
next
  case False
  define available where "available = buffered pr - offset pr"
  define pr1 where "pr1 = (if offset pr > 0
      then pr\<lparr>buf := take available (drop (offset pr) (buf pr)) @ drop available (buf pr),
              buffered := available, offset := 0\<rparr>
      else pr)"
  define newSize where "newSize = (if length (buf pr1) * 2 < n then n else length (buf pr1) * 2)"
  define pr2 where "pr2 = (if n > length (buf pr1)
      then pr1\<lparr>buf := take (buffered pr1) (buf pr1) @ replicate (newSize - buffered pr1) 0\<rparr>
      else pr1)"
  have e: "ensureBytes stream_Read n pr = ensureBytes_loop stream_Read n pr2"
    unfolding ensureBytes_def Let_def pr2_def newSize_def pr1_def available_def
    by (simp only: False if_False)
  have av: "available \<le> length (buf pr) - offset pr"
    using assms(1,2) by (simp add: available_def)
  have o1: "offset pr1 = 0" by (simp add: pr1_def)
  have r1: "reader pr1 = reader pr" by (simp add: pr1_def)
  have b1: "buffered pr1 = available" using assms(1) by (simp add: pr1_def available_def)
  have l1: "buffered pr1 \<le> length (buf pr1)"
    using assms(1,2) av by (auto simp: pr1_def available_def)
  have t1: "take (buffered pr1) (buf pr1) = take available (drop (offset pr) (buf pr))"
    using av by (simp add: pr1_def available_def)
  have o2: "offset pr2 = 0" using o1 by (simp add: pr2_def)
  have r2: "reader pr2 = reader pr" using r1 by (simp add: pr2_def)
  have b2: "buffered pr2 = available" using b1 by (simp add: pr2_def)
  have ns: "n \<le> newSize" by (simp add: newSize_def)
  have l2: "buffered pr2 \<le> length (buf pr2)"
    using l1 by (simp add: pr2_def)
  have n2: "n \<le> length (buf pr2)"
    using l1 ns by (simp add: pr2_def)
  have t2: "take (buffered pr2) (buf pr2) = take available (drop (offset pr) (buf pr))"
  proof (cases "n > length (buf pr1)")
    case True
    then have "buf pr2 = take (buffered pr1) (buf pr1) @ replicate (newSize - buffered pr1) 0"
      and "buffered pr2 = buffered pr1"
      by (simp_all add: pr2_def)
    then have "take (buffered pr2) (buf pr2) = take (buffered pr1) (buf pr1)"
      using l1 by simp
    then show ?thesis by (simp only: t1)
  next
    case False
    then have "pr2 = pr1" by (simp add: pr2_def)
    then show ?thesis by (simp only: t1)
  qed
  have pn: "pending pr = take available (drop (offset pr) (buf pr)) @ concat (reader pr)"
    by (simp add: pending_def available_def)
  have la: "length (take available (drop (offset pr) (buf pr))) = available"
    using av by simp
  have c2: "n \<le> buffered pr2 + length (concat (reader pr2))"
    using assms(3) unfolding pn b2 r2 using la by simp
  from ensureBytes_loop_stream [OF l2 n2 c2] obtain pr' where
    p: "ensureBytes_loop stream_Read n pr2 = Some (None, pr')"
      "n \<le> buffered pr'" "buffered pr' \<le> length (buf pr')" "offset pr' = offset pr2"
      "take (buffered pr') (buf pr') @ concat (reader pr') =
         take (buffered pr2) (buf pr2) @ concat (reader pr2)"
    by blast
  have o: "offset pr' = 0" using p(4) o2 by simp
  have "pending pr' = take (buffered pr') (buf pr') @ concat (reader pr')"
    using o by (simp add: pending_def)
  also have "\<dots> = pending pr"
    unfolding p(5) t2 r2 pn ..
  finally have q: "pending pr' = pending pr" .
  have s: "ensureBytes stream_Read n pr = Some (None, pr')"
    unfolding e by (rule p(1))
  have "offset pr' \<le> buffered pr'" "n \<le> buffered pr' - offset pr'"
    using o p(2) by simp_all
  with s p(3) q show ?thesis by blast
qed

lemma pending_prefix:
  assumes "offset pr \<le> buffered pr" and "buffered pr \<le> length (buf pr)"
    and "m \<le> buffered pr - offset pr"
  shows "take m (drop (offset pr) (buf pr)) = take m (pending pr)"
proof -
  let ?k = "buffered pr - offset pr"
  let ?B = "drop (offset pr) (buf pr)"
  have "length (take ?k ?B) = ?k" using assms(1,2) by simp
  then have "take m (pending pr) = take m (take ?k ?B)"
    using assms(3) by (simp add: pending_def)
  also have "\<dots> = take m ?B" using assms(3) by (simp add: min_def)
  finally show ?thesis by simp
qed

lemma pending_advance:
  assumes "offset pr \<le> buffered pr" and "buffered pr \<le> length (buf pr)"
    and "m \<le> buffered pr - offset pr"
  shows "pending (pr\<lparr>offset := offset pr + m\<rparr>) = drop m (pending pr)"
proof -
  let ?k = "buffered pr - offset pr"
  let ?B = "drop (offset pr) (buf pr)"
  have l: "length (take ?k ?B) = ?k" using assms(1,2) by simp
  have "drop m (pending pr) = drop m (take ?k ?B) @ concat (reader pr)"
    using assms(3) l by (simp add: pending_def)
  also have "drop m (take ?k ?B) = take (?k - m) (drop m ?B)"
    by (simp add: drop_take)
  also have "drop m ?B = drop (offset pr + m) (buf pr)"
    by (simp add: add.commute)
  also have "?k - m = buffered pr - (offset pr + m)" by simp
  finally show ?thesis by (simp add: pending_def)
qed

lemma unat_length_frame: "n \<le> MaxPacketSize \<Longrightarrow> unat (word_of_nat n :: u32) = n"
  by (simp add: unat_of_nat MaxPacketSize_def)

lemma ReadPacket_frame:
  fixes pr :: "byte list list PacketReader"
  assumes "offset pr \<le> buffered pr" and "buffered pr \<le> length (buf pr)"
    and "length payload \<le> MaxPacketSize"
    and "pending pr = LittleEndian_PutUint32 (word_of_nat (length payload))
                       @ LittleEndian_PutUint32 ident @ payload @ rest"
  shows "\<exists>pr'. ReadPacket stream_Read pr = Some ((Some \<lparr>ID = ident, Data = payload\<rparr>, None), pr') \<and>
           pending pr' = rest \<and> offset pr' \<le> buffered pr' \<and> buffered pr' \<le> length (buf pr')"
proof -
  let ?n = "length payload"
  let ?hl = "LittleEndian_PutUint32 (word_of_nat ?n)"
  let ?hi = "LittleEndian_PutUint32 ident"
  have pl: "length (pending pr) = 8 + ?n + length rest"
    unfolding assms(4) by (simp add: length_PutUint32)
  then have "8 \<le> length (pending pr)" by simp
  from ensureBytes_stream [OF assms(1,2) this] obtain pr1 where
    p1: "ensureBytes stream_Read 8 pr = Some (None, pr1)"
      "offset pr1 \<le> buffered pr1" "buffered pr1 \<le> length (buf pr1)"
      "8 \<le> buffered pr1 - offset pr1" "pending pr1 = pending pr"
    by blast
  have h8: "take 8 (drop (offset pr1) (buf pr1)) = ?hl @ ?hi"
    using pending_prefix [OF p1(2,3,4)] unfolding p1(5) assms(4)
    by (simp add: length_PutUint32)
  have "take 4 (drop (offset pr1) (buf pr1)) = take 4 (take 8 (drop (offset pr1) (buf pr1)))"
    by simp
  also have "\<dots> = ?hl" unfolding h8 by (simp add: length_PutUint32)
  finally have w1: "LittleEndian_Uint32 (drop (offset pr1) (buf pr1)) = word_of_nat ?n"
    by (rule Uint32_prefix)
  have "take 4 (drop (offset pr1 + 4) (buf pr1)) = take 4 (drop 4 (take 8 (drop (offset pr1) (buf pr1))))"
    by (simp add: drop_take add.commute)
  also have "\<dots> = ?hi" unfolding h8 by (simp add: length_PutUint32)
  finally have w2: "LittleEndian_Uint32 (drop (offset pr1 + 4) (buf pr1)) = ident"
    by (rule Uint32_prefix)
  have u: "unat (word_of_nat ?n :: u32) = ?n"
    using assms(3) by (rule unat_length_frame)
  have "8 + ?n \<le> length (pending pr1)" unfolding p1(5) pl by simp
  from ensureBytes_stream [OF p1(2,3) this] obtain pr2 where
    p2: "ensureBytes stream_Read (8 + ?n) pr1 = Some (None, pr2)"
      "offset pr2 \<le> buffered pr2" "buffered pr2 \<le> length (buf pr2)"
      "8 + ?n \<le> buffered pr2 - offset pr2" "pending pr2 = pending pr1"
    by blast
  have hf: "take (8 + ?n) (drop (offset pr2) (buf pr2)) = ?hl @ ?hi @ payload"
    using pending_prefix [OF p2(2,3,4)] unfolding p2(5) p1(5) assms(4)
    by (simp add: length_PutUint32)
  have "take ?n (drop (offset pr2 + 8) (buf pr2)) =
        drop 8 (take (8 + ?n) (drop (offset pr2) (buf pr2)))"
    by (simp add: drop_take add.commute)
  also have "\<dots> = payload" unfolding hf by (simp add: length_PutUint32)
  finally have d: "take ?n (drop (offset pr2 + 8) (buf pr2)) = payload" .
  let ?pr3 = "pr2\<lparr>offset := offset pr2 + (8 + ?n)\<rparr>"
  have "pending ?pr3 = drop (8 + ?n) (pending pr2)"
    by (rule pending_advance [OF p2(2,3,4)])
  also have "\<dots> = rest"
    unfolding p2(5) p1(5) assms(4) by (simp add: length_PutUint32)
  finally have q: "pending ?pr3 = rest" .
  have wf3: "offset ?pr3 \<le> buffered ?pr3" "buffered ?pr3 \<le> length (buf ?pr3)"
    using p2(2,3,4) by simp_all
  have "ReadPacket stream_Read pr = Some ((Some \<lparr>ID = ident, Data = payload\<rparr>, None), ?pr3)"
    using assms(3)
    by (simp add: ReadPacket_def HeaderSize_def p1(1) w1 w2 u p2(1) d Let_def)
  with q wf3 show ?thesis by blast
qed

lemma PacketWriter_Write_stream:
  "PacketWriter_Write stream_Write w ident payload =
     (None, w @ [LittleEndian_PutUint32 (word_of_nat (length payload)) @ LittleEndian_PutUint32 ident]
              @ (if length payload > 0 then [payload] else []))"
  by (simp add: PacketWriter_Write_def stream_Write_def Let_def)

lemma pending_new: "pending (NewPacketReaderSize chunks n) = concat chunks"
  by (simp add: pending_def NewPacketReaderSize_def Let_def)

text \<open>
  The round trip over a stream that reports its end only by a \<open>Read\<close> of its own
  (\<open>stream_Read\<close>). For every packet id and every payload of at most 16 MiB, the packet
  writer writes the little-endian length, the little-endian id and the payload, 8 +
  length bytes in all. When such a stream delivers these bytes, in pieces of any sizes
  and followed by anything, \<open>ReadPacket\<close> on a new reader (of any initial buffer size,
  or of the default size) returns the packet with the same id and payload and no error,
  and the reader's unconsumed input is then exactly what followed the frame.
\<close>

lemma frame_roundtrip:
  assumes "length payload \<le> MaxPacketSize"
    and "PacketWriter_Write stream_Write [] ident payload = (err, written)"
    and "concat chunks = concat written @ rest"
  shows "err = None \<and>
         concat written = LittleEndian_PutUint32 (word_of_nat (length payload))
                          @ LittleEndian_PutUint32 ident @ payload \<and>
         length (concat written) = 8 + length payload \<and>
         (\<exists>pr'. ReadPacket stream_Read (NewPacketReaderSize chunks n)
                  = Some ((Some \<lparr>ID = ident, Data = payload\<rparr>, None), pr') \<and>
                pending pr' = rest \<and>
                pending pr' = drop (8 + length payload) (pending (NewPacketReaderSize chunks n))) \<and>
         (\<exists>pr'. ReadPacket stream_Read (NewPacketReader chunks)
                  = Some ((Some \<lparr>ID = ident, Data = payload\<rparr>, None), pr') \<and>
                pending pr' = rest)"
proof -
  let ?frame = "LittleEndian_PutUint32 (word_of_nat (length payload))
                @ LittleEndian_PutUint32 ident @ payload"
  from assms(2) have e: "err = None"
    and w: "written = [LittleEndian_PutUint32 (word_of_nat (length payload)) @ LittleEndian_PutUint32 ident]
              @ (if length payload > 0 then [payload] else [])"
    unfolding PacketWriter_Write_stream by simp_all
  have c: "concat written = ?frame" unfolding w by simp
  have l: "length (concat written) = 8 + length payload"
    unfolding c by (simp add: length_PutUint32)
  let ?pr = "NewPacketReaderSize chunks n"
  have p: "pending ?pr = LittleEndian_PutUint32 (word_of_nat (length payload))
                @ LittleEndian_PutUint32 ident @ payload @ rest"
    unfolding pending_new assms(3) c by simp
  have wf: "offset ?pr \<le> buffered ?pr" "buffered ?pr \<le> length (buf ?pr)"
    by (simp_all add: NewPacketReaderSize_def Let_def)
  from ReadPacket_frame [OF wf assms(1) p] obtain pr' where
    r: "ReadPacket stream_Read ?pr = Some ((Some \<lparr>ID = ident, Data = payload\<rparr>, None), pr')"
      "pending pr' = rest"
    by blast
  have "drop (8 + length payload) (pending ?pr) = rest"
    unfolding p by (simp add: length_PutUint32)
  with r have r1: "\<exists>pr'. ReadPacket stream_Read ?pr
                  = Some ((Some \<lparr>ID = ident, Data = payload\<rparr>, None), pr') \<and>
                pending pr' = rest \<and> pending pr' = drop (8 + length payload) (pending ?pr)"
    by auto
  let ?pd = "NewPacketReader chunks"
  have pd: "pending ?pd = LittleEndian_PutUint32 (word_of_nat (length payload))
                @ LittleEndian_PutUint32 ident @ payload @ rest"
    using assms(3) c by (simp add: pending_def NewPacketReader_def)
  have wfd: "offset ?pd \<le> buffered ?pd" "buffered ?pd \<le> length (buf ?pd)"
    by (simp_all add: NewPacketReader_def)
  from ReadPacket_frame [OF wfd assms(1) pd]
  have r2: "\<exists>pr'. ReadPacket stream_Read ?pd
                  = Some ((Some \<lparr>ID = ident, Data = payload\<rparr>, None), pr') \<and>
                pending pr' = rest"
    by blast
  from e c l r1 r2 show ?thesis by blast
qed

lemma frame_roundtrip_witness:
  "length [0x01, 0x02, 0x03 :: byte] \<le> MaxPacketSize \<and>
   PacketWriter_Write stream_Write [] 7 [0x01, 0x02, 0x03]
     = (None, [[0x03, 0x00, 0x00, 0x00, 0x07, 0x00, 0x00, 0x00], [0x01, 0x02, 0x03]]) \<and>
   fst (the (ReadPacket stream_Read
     (NewPacketReaderSize [[0x03, 0x00, 0x00], [0x00, 0x07, 0x00, 0x00, 0x00, 0x01], [0x02, 0x03, 0x09]] 8)))
     = (Some \<lparr>ID = 7, Data = [0x01, 0x02, 0x03]\<rparr>, None) \<and>
   pending (snd (the (ReadPacket stream_Read
     (NewPacketReaderSize [[0x03, 0x00, 0x00], [0x00, 0x07, 0x00, 0x00, 0x00, 0x01], [0x02, 0x03, 0x09]] 8))))
     = [0x09]"
proof -
  let ?chunks = "[[0x03, 0x00, 0x00], [0x00, 0x07, 0x00, 0x00, 0x00, 0x01], [0x02, 0x03, 0x09]] :: byte list list"
  let ?written = "[[0x03, 0x00, 0x00, 0x00, 0x07, 0x00, 0x00, 0x00], [0x01, 0x02, 0x03]] :: byte list list"
  have a: "length [0x01, 0x02, 0x03 :: byte] \<le> MaxPacketSize"
    by (simp add: MaxPacketSize_def)
  have b: "PacketWriter_Write stream_Write [] 7 [0x01, 0x02, 0x03] = (None, ?written)"
    by (simp add: PacketWriter_Write_def stream_Write_def LittleEndian_PutUint32_def)
  have c: "concat ?chunks = concat ?written @ [0x09]"
    by simp
  from frame_roundtrip [OF a b c, of 8] obtain pr' where
    "ReadPacket stream_Read (NewPacketReaderSize ?chunks 8)
       = Some ((Some \<lparr>ID = 7, Data = [0x01, 0x02, 0x03]\<rparr>, None), pr')"
    "pending pr' = [0x09]"
    by blast
  with a b show ?thesis by simp
qed

subsection \<open>End of stream with the last bytes\<close>

lemma written_7_123:
  "PacketWriter_Write stream_Write [] 7 [0x01, 0x02, 0x03]
     = (None, [[0x03, 0x00, 0x00, 0x00, 0x07, 0x00, 0x00, 0x00], [0x01, 0x02, 0x03]])"
  by (simp add: PacketWriter_Write_def stream_Write_def LittleEndian_PutUint32_def)

lemma header_eof_step:
  "ensureBytes stream_Read_eof 8
     \<lparr>reader = [[0x03, 0x00, 0x00, 0x00, 0x07, 0x00, 0x00, 0x00], [0x01, 0x02, 0x03]],
      buf = replicate 16 0, buffered = 0, offset = 0\<rparr>
   = Some (None, \<lparr>reader = [[0x01, 0x02, 0x03]],
                  buf = 0x03 # 0x00 # 0x00 # 0x00 # 0x07 # 0x00 # 0x00 # 0x00 # replicate 8 0,
                  buffered = 8, offset = 0\<rparr>)"
proof -
  have "ensureBytes_loop stream_Read_eof 8
     \<lparr>reader = [[0x03, 0x00, 0x00, 0x00, 0x07, 0x00, 0x00, 0x00], [0x01, 0x02, 0x03 :: byte]],
      buf = replicate 16 0, buffered = 0, offset = 0\<rparr>
   = Some (None, \<lparr>reader = [[0x01, 0x02, 0x03]],
                  buf = 0x03 # 0x00 # 0x00 # 0x00 # 0x07 # 0x00 # 0x00 # 0x00 # replicate 8 0,
                  buffered = 8, offset = 0\<rparr>)"
    apply (subst ensureBytes_loop.simps)
    apply (simp add: Let_def)
    apply (subst ensureBytes_loop.simps)
    apply simp
    done
  then show ?thesis
    by (simp add: ensureBytes_def Let_def)
qed

lemma body_eof_step:
  "ensureBytes stream_Read_eof 11
     \<lparr>reader = [[0x01, 0x02, 0x03]],
      buf = 0x03 # 0x00 # 0x00 # 0x00 # 0x07 # 0x00 # 0x00 # 0x00 # replicate 8 0,
      buffered = 8, offset = 0\<rparr>
   = Some (Some EOF, \<lparr>reader = [],
                  buf = 0x03 # 0x00 # 0x00 # 0x00 # 0x07 # 0x00 # 0x00 # 0x00 # 0x01 # 0x02 # 0x03
                        # replicate 5 0,
                  buffered = 11, offset = 0\<rparr>)"
proof -
  have "ensureBytes_loop stream_Read_eof 11
     \<lparr>reader = [[0x01, 0x02, 0x03 :: byte]],
      buf = 0x03 # 0x00 # 0x00 # 0x00 # 0x07 # 0x00 # 0x00 # 0x00 # replicate 8 0,
      buffered = 8, offset = 0\<rparr>
   = Some (Some EOF, \<lparr>reader = [],
                  buf = 0x03 # 0x00 # 0x00 # 0x00 # 0x07 # 0x00 # 0x00 # 0x00 # 0x01 # 0x02 # 0x03
                        # replicate 5 0,
                  buffered = 11, offset = 0\<rparr>)"
    apply (subst ensureBytes_loop.simps)
    apply (simp add: Let_def)
    done
  then show ?thesis
    by (simp add: ensureBytes_def Let_def)
qed

lemma second_call_step:
  "ReadPacket stream_Read_eof
     \<lparr>reader = [],
      buf = 0x03 # 0x00 # 0x00 # 0x00 # 0x07 # 0x00 # 0x00 # 0x00 # 0x01 # 0x02 # 0x03
            # replicate 5 0,
      buffered = 11, offset = 0\<rparr>
   = Some ((Some \<lparr>ID = 7, Data = [0x01, 0x02, 0x03]\<rparr>, None),
           \<lparr>reader = [],
            buf = 0x03 # 0x00 # 0x00 # 0x00 # 0x07 # 0x00 # 0x00 # 0x00 # 0x01 # 0x02 # 0x03
                  # replicate 5 0,
            buffered = 11, offset = 11\<rparr>)"
proof -
  let ?pr = "\<lparr>reader = [] :: byte list list,
      buf = 0x03 # 0x00 # 0x00 # 0x00 # 0x07 # 0x00 # 0x00 # 0x00 # 0x01 # 0x02 # 0x03
            # replicate 5 0,
      buffered = 11, offset = 0\<rparr>"
  have a: "ensureBytes stream_Read_eof 8 ?pr = Some (None, ?pr)"
    by (simp add: ensureBytes_def)
  have b: "ensureBytes stream_Read_eof 11 ?pr = Some (None, ?pr)"
    by (simp add: ensureBytes_def)
  show ?thesis
    by (simp add: ReadPacket_def HeaderSize_def a b LittleEndian_Uint32_def MaxPacketSize_def Let_def)
qed

text \<open>
  Claim C5 fails on the code for a reader that returns the bytes completing a frame
  together with \<open>io.EOF\<close>. The frame written for id 7 and the payload 01 02 03 is read
  back from the two pieces it was written in. The first \<open>ensureBytes\<close> gets the header;
  the second stores the payload, so that \<open>buffered\<close> reaches the eleven bytes asked
  for, finds the test \<open>err == io.EOF && pr.buffered > 0 && pr.buffered < n\<close> false and
  returns \<open>io.EOF\<close>. \<open>ReadPacket\<close> returns no packet and \<open>io.EOF\<close> while the whole frame
  is in its buffer and nothing of it is consumed; called again on the reader it left, it
  returns the packet with id 7 and the payload.
\<close>

theorem frame_roundtrip_eof_with_data:
  "PacketWriter_Write stream_Write [] 7 [0x01, 0x02, 0x03]
     = (None, [[0x03, 0x00, 0x00, 0x00, 0x07, 0x00, 0x00, 0x00], [0x01, 0x02, 0x03]]) \<and>
   ReadPacket stream_Read_eof
     (NewPacketReaderSize [[0x03, 0x00, 0x00, 0x00, 0x07, 0x00, 0x00, 0x00], [0x01, 0x02, 0x03]] 16)
     = Some ((None, Some EOF),
             \<lparr>reader = [],
              buf = 0x03 # 0x00 # 0x00 # 0x00 # 0x07 # 0x00 # 0x00 # 0x00 # 0x01 # 0x02 # 0x03
                    # replicate 5 0,
              buffered = 11, offset = 0\<rparr>) \<and>
   pending \<lparr>reader = [],
            buf = 0x03 # 0x00 # 0x00 # 0x00 # 0x07 # 0x00 # 0x00 # 0x00 # 0x01 # 0x02 # 0x03
                  # replicate 5 0,
            buffered = 11, offset = 0\<rparr>
     = [0x03, 0x00, 0x00, 0x00, 0x07, 0x00, 0x00, 0x00, 0x01, 0x02, 0x03] \<and>
   ReadPacket stream_Read_eof
     \<lparr>reader = [],
      buf = 0x03 # 0x00 # 0x00 # 0x00 # 0x07 # 0x00 # 0x00 # 0x00 # 0x01 # 0x02 # 0x03
            # replicate 5 0,
      buffered = 11, offset = 0\<rparr>
     = Some ((Some \<lparr>ID = 7, Data = [0x01, 0x02, 0x03]\<rparr>, None),
             \<lparr>reader = [],
              buf = 0x03 # 0x00 # 0x00 # 0x00 # 0x07 # 0x00 # 0x00 # 0x00 # 0x01 # 0x02 # 0x03
                    # replicate 5 0,
              buffered = 11, offset = 11\<rparr>)"
proof -
  have n: "NewPacketReaderSize [[0x03, 0x00, 0x00, 0x00, 0x07, 0x00, 0x00, 0x00], [0x01, 0x02, 0x03 :: byte]] 16
           = \<lparr>reader = [[0x03, 0x00, 0x00, 0x00, 0x07, 0x00, 0x00, 0x00], [0x01, 0x02, 0x03]],
              buf = replicate 16 0, buffered = 0, offset = 0\<rparr>"
    by (simp add: NewPacketReaderSize_def HeaderSize_def)
  have r: "ReadPacket stream_Read_eof
     \<lparr>reader = [[0x03, 0x00, 0x00, 0x00, 0x07, 0x00, 0x00, 0x00], [0x01, 0x02, 0x03]],
      buf = replicate 16 0, buffered = 0, offset = 0\<rparr>
     = Some ((None, Some EOF),
             \<lparr>reader = [],
              buf = 0x03 # 0x00 # 0x00 # 0x00 # 0x07 # 0x00 # 0x00 # 0x00 # 0x01 # 0x02 # 0x03
                    # replicate 5 0,
              buffered = 11, offset = 0\<rparr>)"
    by (simp add: ReadPacket_def HeaderSize_def header_eof_step LittleEndian_Uint32_def
          MaxPacketSize_def body_eof_step Let_def)
  have p: "pending \<lparr>reader = [],
            buf = 0x03 # 0x00 # 0x00 # 0x00 # 0x07 # 0x00 # 0x00 # 0x00 # 0x01 # 0x02 # 0x03
                  # replicate 5 0,
            buffered = 11, offset = 0\<rparr>
     = [0x03, 0x00, 0x00, 0x00, 0x07, 0x00, 0x00, 0x00, 0x01, 0x02, 0x03]"
    by (simp add: pending_def)
  from written_7_123 n r p second_call_step show ?thesis by (simp only:)
qed

end
